theory Spec2Isabelle
  imports Complex_Main "HOL-Library.Multiset"
begin

section \<open>JavaScript strings and the string primitives used by server.js\<close>

text \<open>
  A JavaScript string is a sequence of UTF-16 code units. It is modelled as a
  \<^typ>\<open>string\<close>: one \<^typ>\<open>char\<close> is one code unit in the range
  U+0000 .. U+00FF (Latin-1), so \<^term>\<open>length\<close> is the \<^verbatim>\<open>.length\<close> of
  the source. The character tables below are the ECMAScript ones restricted to
  that range.
\<close>

text \<open>
  The class \<^verbatim>\<open>\s\<close> of a regular expression, which is also the set that
  \<^verbatim>\<open>String.prototype.trim\<close> strips: TAB, LF, VT, FF, CR, SPACE and NO-BREAK
  SPACE.
\<close>

definition is_space :: "char \<Rightarrow> bool" where
  "is_space c \<longleftrightarrow>
     c = CHR 0x09 \<or> c = CHR 0x0A \<or> c = CHR 0x0B \<or> c = CHR 0x0C \<or> c = CHR 0x0D
     \<or> c = CHR '' '' \<or> c = CHR 0xA0"

text \<open>The class \<^verbatim>\<open>[.!?]\<close>.\<close>

definition is_stop :: "char \<Rightarrow> bool" where
  "is_stop c \<longleftrightarrow> c = CHR ''.'' \<or> c = CHR ''!'' \<or> c = CHR ''?''"

text \<open>\<^verbatim>\<open>\p{L}\<close> and \<^verbatim>\<open>\p{N}\<close> (Unicode general categories L* and N*).\<close>

definition is_letter :: "char \<Rightarrow> bool" where
  "is_letter c \<longleftrightarrow>
     (let n = (of_char c :: nat) in
        (0x41 \<le> n \<and> n \<le> 0x5A) \<or> (0x61 \<le> n \<and> n \<le> 0x7A)
        \<or> n = 0xAA \<or> n = 0xB5 \<or> n = 0xBA
        \<or> (0xC0 \<le> n \<and> n \<le> 0xD6) \<or> (0xD8 \<le> n \<and> n \<le> 0xF6) \<or> 0xF8 \<le> n)"

definition is_number :: "char \<Rightarrow> bool" where
  "is_number c \<longleftrightarrow>
     (let n = (of_char c :: nat) in
        (0x30 \<le> n \<and> n \<le> 0x39) \<or> n = 0xB2 \<or> n = 0xB3 \<or> n = 0xB9
        \<or> (0xBC \<le> n \<and> n \<le> 0xBE))"

text \<open>\<^verbatim>\<open>String.prototype.toLowerCase\<close>, one code unit at a time.\<close>

definition lower_char :: "char \<Rightarrow> char" where
  "lower_char c =
     (let n = (of_char c :: nat) in
        if (0x41 \<le> n \<and> n \<le> 0x5A) \<or> (0xC0 \<le> n \<and> n \<le> 0xD6) \<or> (0xD8 \<le> n \<and> n \<le> 0xDE)
        then char_of (n + 0x20) else c)"

definition toLowerCase :: "string \<Rightarrow> string" where
  "toLowerCase s = map lower_char s"

text \<open>\<^verbatim>\<open>String.prototype.trim\<close>.\<close>

definition trimStart :: "string \<Rightarrow> string" where
  "trimStart s = dropWhile is_space s"

definition trimEnd :: "string \<Rightarrow> string" where
  "trimEnd s = rev (dropWhile is_space (rev s))"

definition trim :: "string \<Rightarrow> string" where
  "trim s = trimEnd (trimStart s)"

text \<open>
  \<^verbatim>\<open>s.replace(/\s+/g, " ")\<close>: every maximal run of white space becomes one
  SPACE.
\<close>

function collapse_ws :: "string \<Rightarrow> string" where
  "collapse_ws [] = []"
| "collapse_ws (c # cs) =
     (if is_space c then CHR '' '' # collapse_ws (dropWhile is_space cs)
      else c # collapse_ws cs)"
  by pat_completeness auto
termination
  by (relation "measure length") (auto simp: le_imp_less_Suc length_dropWhile_le)

text \<open>
  \<^verbatim>\<open>slice(start, end)\<close> of strings and arrays: a negative index counts from
  the end, and both indices are clamped to the length.
\<close>

definition js_slice :: "'a list \<Rightarrow> int \<Rightarrow> int \<Rightarrow> 'a list" where
  "js_slice xs start end =
     (let len = int (length xs);
          from = (if start < 0 then max (len + start) 0 else min start len);
          to = (if end < 0 then max (len + end) 0 else min end len)
      in take (nat (to - from)) (drop (nat from) xs))"

definition js_slice_from :: "'a list \<Rightarrow> int \<Rightarrow> 'a list" where
  "js_slice_from xs start = js_slice xs start (int (length xs))"

text \<open>\<^verbatim>\<open>s.lastIndexOf(c)\<close> for a one-character needle: \<open>-1\<close> when absent.\<close>

definition lastIndexOf :: "string \<Rightarrow> char \<Rightarrow> int" where
  "lastIndexOf s c =
     (if c \<in> set s then int (length s) - 1 - int (length (takeWhile (\<lambda>x. x \<noteq> c) (rev s)))
      else - 1)"

text \<open>\<^verbatim>\<open>parts.join(sep)\<close> on an array of strings.\<close>

fun join :: "string \<Rightarrow> string list \<Rightarrow> string" where
  "join sep [] = []"
| "join sep [x] = x"
| "join sep (x # y # ys) = x @ sep @ join sep (y # ys)"

section \<open>The text finaliser (\<^verbatim>\<open>finalizeReply\<close>, server.js lines 28--65)\<close>

text \<open>
  \<^verbatim>\<open>normalized.match(/[^.!?]+[.!?]+/g) || []\<close>: scanning from the left, a match
  is a maximal non-empty run of non-terminators followed by a maximal non-empty
  run of terminators. Terminators with no text before them are skipped, and a
  final run of text with no terminator after it matches nothing.
\<close>

function sentenceParts :: "string \<Rightarrow> string list" where
  "sentenceParts s =
     (if s = [] then []
      else
        let body = takeWhile (\<lambda>c. \<not> is_stop c) s;
            rest = dropWhile (\<lambda>c. \<not> is_stop c) s;
            stops = takeWhile is_stop rest;
            rest' = dropWhile is_stop rest
        in if body = [] then sentenceParts rest'
           else if stops = [] then []
           else (body @ stops) # sentenceParts rest')"
  by pat_completeness auto
termination
proof (relation "measure length")
  show "wf (measure length)" by simp
next
  fix s :: string and body rest stops rest'
  assume s: "s \<noteq> []" and b: "body = takeWhile (\<lambda>c. \<not> is_stop c) s"
    and r: "rest = dropWhile (\<lambda>c. \<not> is_stop c) s"
    and r': "rest' = dropWhile is_stop rest" and e: "body = []"
  from s b e have "is_stop (hd s)" by (cases s) (auto split: if_splits)
  with s r have "rest = s" by (cases s) auto
  with s \<open>is_stop (hd s)\<close> r' have "length rest' < length s"
    by (cases s) (auto simp: le_imp_less_Suc length_dropWhile_le)
  then show "(rest', s) \<in> measure length" by simp
next
  fix s :: string and body rest stops rest'
  assume s: "s \<noteq> []" and b: "body = takeWhile (\<lambda>c. \<not> is_stop c) s"
    and r: "rest = dropWhile (\<lambda>c. \<not> is_stop c) s"
    and r': "rest' = dropWhile is_stop rest" and e: "body \<noteq> []"
  have "length rest' \<le> length rest" using r' by (simp add: length_dropWhile_le)
  moreover have "length body + length rest = length s"
    using b r by (metis length_append takeWhile_dropWhile_id)
  moreover have "0 < length body" using e by simp
  ultimately have "length rest' < length s" by linarith
  then show "(rest', s) \<in> measure length" by simp
qed

declare sentenceParts.simps [simp del]

text \<open>
  The deduplication key of a sentence (lines 38--42): lower case, remove every
  character that is not a letter, a number or white space, collapse white
  space, trim.
\<close>

definition sentence_key :: "string \<Rightarrow> string" where
  "sentence_key sentence =
     trim (collapse_ws
       (filter (\<lambda>c. is_letter c \<or> is_number c \<or> is_space c) (toLowerCase sentence)))"

text \<open>
  The loop of lines 35--46: \<open>seen\<close> is the set of keys met so far, the result is
  \<^verbatim>\<open>uniqueSentences\<close>.
\<close>

fun dedupe :: "string set \<Rightarrow> string list \<Rightarrow> string list" where
  "dedupe seen [] = []"
| "dedupe seen (sentence # more) =
     (let key = sentence_key sentence
      in if key = [] \<or> key \<in> seen then dedupe seen more
         else trim sentence # dedupe (insert key seen) more)"

definition uniqueSentences :: "string \<Rightarrow> string list" where
  "uniqueSentences normalized = dedupe {} (sentenceParts normalized)"

text \<open>Lines 47--51: the candidate before any truncation.\<close>

definition joinedCandidate :: "string list \<Rightarrow> nat \<Rightarrow> string" where
  "joinedCandidate unique maxSentences =
     trim (join '' '' (js_slice unique 0 (int maxSentences)))"

definition pickCandidate :: "string \<Rightarrow> nat \<Rightarrow> string" where
  "pickCandidate normalized maxSentences =
     (let unique = uniqueSentences normalized
      in if length unique > 0 then joinedCandidate unique maxSentences else normalized)"

text \<open>
  \<^verbatim>\<open>Math.max(s.lastIndexOf("."), s.lastIndexOf("!"), s.lastIndexOf("?"))\<close>
\<close>

definition lastStop :: "string \<Rightarrow> int" where
  "lastStop s = max (max (lastIndexOf s CHR ''.'') (lastIndexOf s CHR ''!'')) (lastIndexOf s CHR ''?'')"

text \<open>Lines 53--57.\<close>

definition truncateCandidate :: "string \<Rightarrow> nat \<Rightarrow> string" where
  "truncateCandidate candidate maxChars =
     (if int (length candidate) > int maxChars then
        let short = js_slice candidate 0 (int maxChars);
            stop = lastStop short
        in trim (if stop > 40 then js_slice short 0 (stop + 1) else short)
      else candidate)"

text \<open>\<^verbatim>\<open>/[.!?]$/.test(candidate)\<close>\<close>

definition endsWithStop :: "string \<Rightarrow> bool" where
  "endsWithStop s \<longleftrightarrow> s \<noteq> [] \<and> is_stop (last s)"

text \<open>Lines 59--62.\<close>

definition terminateCandidate :: "string \<Rightarrow> string" where
  "terminateCandidate candidate =
     (if \<not> endsWithStop candidate then
        let stop = lastStop candidate
        in trim (if stop > 0 then js_slice candidate 0 (stop + 1) else candidate @ ''.'')
      else candidate)"

text \<open>
  The values that can reach the function: the JSON values, and \<open>None\<close> for
  \<^verbatim>\<open>undefined\<close>. A JSON number is a double; its finite values are rationals.
\<close>

datatype jsnum = NaN | PosInf | NegInf | Fin rat

datatype json =
    JNull
  | JBool bool
  | JNum jsnum
  | JStr string
  | JArr "json list"
  | JObj "(string \<times> json) list"

text \<open>
  \<^verbatim>\<open>finalizeReply(text, maxChars = 520, maxSentences = 4)\<close>. The two limits are
  counts; the only call passes neither, so they are 520 and 4 there.
\<close>

definition normalizeText :: "string \<Rightarrow> string" where
  "normalizeText t = trim (collapse_ws t)"

definition finalizeReply :: "json option \<Rightarrow> nat \<Rightarrow> nat \<Rightarrow> string" where
  "finalizeReply text maxChars maxSentences =
     (case text of
        Some (JStr t) \<Rightarrow>
          if t = [] then []
          else
            let normalized = normalizeText t
            in if normalized = [] then []
               else terminateCandidate
                      (truncateCandidate (pickCandidate normalized maxSentences) maxChars)
      | _ \<Rightarrow> [])"

text \<open>
  A string that is one sentence, in the sense of the pattern of
  \<^verbatim>\<open>sentenceParts\<close>: it matches \<^verbatim>\<open>^[^.!?]+[.!?]+$\<close>.
\<close>

definition single_sentence :: "string \<Rightarrow> bool" where
  "single_sentence s \<longleftrightarrow>
     (let body = takeWhile (\<lambda>c. \<not> is_stop c) s;
          stops = dropWhile (\<lambda>c. \<not> is_stop c) s
      in body \<noteq> [] \<and> stops \<noteq> [] \<and> list_all is_stop stops)"

text \<open>
  The strings that \<^verbatim>\<open>replace(/\s+/g, " ")\<close> leaves as they are: all white space
  is a single SPACE between two other characters or at an end.
\<close>

fun ws_normal :: "string \<Rightarrow> bool" where
  "ws_normal [] = True"
| "ws_normal [c] = (is_space c \<longrightarrow> c = CHR '' '')"
| "ws_normal (c # d # r) = ((is_space c \<longrightarrow> c = CHR '' '' \<and> \<not> is_space d) \<and> ws_normal (d # r))"

section \<open>JavaScript values and coercions\<close>

text \<open>
  A request body and the lead document are JSON. \<^typ>\<open>json option\<close> is a value
  that may be \<^verbatim>\<open>undefined\<close> (\<open>None\<close>). A \<open>JObj\<close> lists the own properties of a
  parsed object, each key once.
\<close>

datatype exn = TypeError | SyntaxError | IOError

text \<open>
  \<^verbatim>\<open>v[k]\<close> on a value that is not \<^verbatim>\<open>null\<close>. The keys read by server.js
  (\<^verbatim>\<open>email\<close>, \<^verbatim>\<open>consent\<close>, \<^verbatim>\<open>answers\<close>, \<^verbatim>\<open>score\<close>, \<^verbatim>\<open>percentage\<close>,
  \<^verbatim>\<open>q1\<close> .. \<^verbatim>\<open>q4\<close>, \<^verbatim>\<open>createdAt\<close>, \<^verbatim>\<open>role\<close>, \<^verbatim>\<open>content\<close>, \<^verbatim>\<open>message\<close>,
  \<^verbatim>\<open>prompt\<close>, \<^verbatim>\<open>text\<close>, \<^verbatim>\<open>history\<close>) are properties of no prototype, so only
  an object has them.
\<close>

fun get_prop :: "json \<Rightarrow> string \<Rightarrow> json option" where
  "get_prop (JObj kvs) k = map_of kvs k"
| "get_prop _ k = None"

text \<open>\<^verbatim>\<open>v?.k\<close>\<close>

definition opt_prop :: "json option \<Rightarrow> string \<Rightarrow> json option" where
  "opt_prop v k = (case v of None \<Rightarrow> None | Some JNull \<Rightarrow> None | Some x \<Rightarrow> get_prop x k)"

text \<open>\<^verbatim>\<open>Boolean(v)\<close>\<close>

fun truthy :: "json \<Rightarrow> bool" where
  "truthy JNull = False"
| "truthy (JBool b) = b"
| "truthy (JNum n) = (case n of Fin q \<Rightarrow> q \<noteq> 0 | NaN \<Rightarrow> False | _ \<Rightarrow> True)"
| "truthy (JStr s) = (s \<noteq> [])"
| "truthy (JArr xs) = True"
| "truthy (JObj kvs) = True"

definition js_Boolean :: "json option \<Rightarrow> bool" where
  "js_Boolean v = (case v of None \<Rightarrow> False | Some x \<Rightarrow> truthy x)"

text \<open>\<^verbatim>\<open>v || d\<close>\<close>

definition js_or :: "json option \<Rightarrow> json \<Rightarrow> json" where
  "js_or v d = (case v of None \<Rightarrow> d | Some x \<Rightarrow> if truthy x then x else d)"

text \<open>
  What the process gets from outside the source file: the engine's conversions
  between numbers and strings (\<^verbatim>\<open>Number::toString\<close>, \<^verbatim>\<open>StringToNumber\<close>),
  \<^verbatim>\<open>String.prototype.localeCompare\<close> (the collation of the host's locale), the
  clock read by \<^verbatim>\<open>new Date().toISOString()\<close>, and whether \<^verbatim>\<open>fs.mkdir\<close> and
  \<^verbatim>\<open>fs.writeFile\<close> fail.
\<close>

record env =
  numToString :: "jsnum \<Rightarrow> string"
  stringToNum :: "string \<Rightarrow> jsnum"
  localeCompare :: "string \<Rightarrow> string \<Rightarrow> int"
  now :: string
  mkdirFails :: bool
  writeFails :: bool

text \<open>
  \<^verbatim>\<open>String(v)\<close>. An array is joined with commas, \<^verbatim>\<open>null\<close> elements giving the
  empty string. An object is \<^verbatim>\<open>[object Object]\<close>, unless it has an own property
  \<^verbatim>\<open>toString\<close>: a parsed value is never a function, so the conversion finds
  nothing to call and throws a TypeError.
\<close>

fun js_String :: "env \<Rightarrow> json \<Rightarrow> exn + string"
  and js_elements :: "env \<Rightarrow> json list \<Rightarrow> exn + string list" where
  "js_String e JNull = Inr ''null''"
| "js_String e (JBool b) = Inr (if b then ''true'' else ''false'')"
| "js_String e (JNum n) = Inr (numToString e n)"
| "js_String e (JStr s) = Inr s"
| "js_String e (JArr xs) =
     (case js_elements e xs of Inl x \<Rightarrow> Inl x | Inr ss \<Rightarrow> Inr (join '','' ss))"
| "js_String e (JObj kvs) =
     (if map_of kvs ''toString'' \<noteq> None then Inl TypeError else Inr ''[object Object]'')"
| "js_elements e [] = Inr []"
| "js_elements e (v # vs) =
     (case (if v = JNull then Inr [] else js_String e v) of
        Inl x \<Rightarrow> Inl x
      | Inr s \<Rightarrow> (case js_elements e vs of Inl x \<Rightarrow> Inl x | Inr ss \<Rightarrow> Inr (s # ss)))"

text \<open>
  \<^verbatim>\<open>Number(v)\<close>. An array or an object is first converted to a string as above
  (their \<^verbatim>\<open>valueOf\<close> returns no primitive).
\<close>

definition js_Number :: "env \<Rightarrow> json option \<Rightarrow> exn + jsnum" where
  "js_Number e v =
     (case v of
        None \<Rightarrow> Inr NaN
      | Some JNull \<Rightarrow> Inr (Fin 0)
      | Some (JBool b) \<Rightarrow> Inr (Fin (if b then 1 else 0))
      | Some (JNum n) \<Rightarrow> Inr n
      | Some (JStr s) \<Rightarrow> Inr (stringToNum e s)
      | Some x \<Rightarrow> (case js_String e x of Inl err \<Rightarrow> Inl err | Inr s \<Rightarrow> Inr (stringToNum e s)))"

section \<open>The lead store (server.js lines 67--94)\<close>

text \<open>
  What \<^verbatim>\<open>fs.readFile\<close> followed by \<^verbatim>\<open>JSON.parse\<close> does on the lead document:
  the file is absent (\<^verbatim>\<open>ENOENT\<close>), reading fails otherwise, the content is not
  JSON, or it parses to a value.
\<close>

datatype lead_file = Absent | Unreadable | NotJson | Parsed json

definition readParsed :: "lead_file \<Rightarrow> exn + json option" where
  "readParsed f =
     (case f of
        Absent \<Rightarrow> Inr None
      | Unreadable \<Rightarrow> Inl IOError
      | NotJson \<Rightarrow> Inl SyntaxError
      | Parsed v \<Rightarrow> Inr (Some v))"

text \<open>
  \<^verbatim>\<open>saveMatchLead\<close>: the new document, or the error thrown. A failed write is
  taken to leave the document as it was.
\<close>

definition saveMatchLead :: "env \<Rightarrow> lead_file \<Rightarrow> json \<Rightarrow> exn + lead_file" where
  "saveMatchLead e f lead =
     (if mkdirFails e then Inl IOError
      else case readParsed f of
        Inl err \<Rightarrow> Inl err
      | Inr parsed \<Rightarrow>
          let leads = (case parsed of Some (JArr xs) \<Rightarrow> xs | _ \<Rightarrow> [])
          in if writeFails e then Inl IOError else Inr (Parsed (JArr (leads @ [lead]))))"

text \<open>
  The key of the comparator of line 89, \<^verbatim>\<open>String(a.createdAt || "")\<close>; reading
  a property of \<^verbatim>\<open>null\<close> throws.
\<close>

definition createdAtKey :: "env \<Rightarrow> json \<Rightarrow> exn + string" where
  "createdAtKey e a =
     (if a = JNull then Inl TypeError
      else js_String e (js_or (get_prop a ''createdAt'') (JStr [])))"

fun createdAtKeys :: "env \<Rightarrow> json list \<Rightarrow> exn + (string \<times> json) list" where
  "createdAtKeys e [] = Inr []"
| "createdAtKeys e (a # as) =
     (case createdAtKey e a of
        Inl err \<Rightarrow> Inl err
      | Inr k \<Rightarrow> (case createdAtKeys e as of Inl err \<Rightarrow> Inl err | Inr ks \<Rightarrow> Inr ((k, a) # ks)))"

text \<open>
  \<^verbatim>\<open>parsed.sort((a, b) => key(b).localeCompare(key(a)))\<close>.
  \<^verbatim>\<open>Array.prototype.sort\<close> is stable and puts \<open>a\<close> before \<open>b\<close> when the
  comparator is negative on \<open>(a, b)\<close>; it is modelled by a stable insertion
  sort. An array of fewer than two elements is never compared; in a longer one
  every element is compared at least once, so a key that throws makes the sort
  throw.
\<close>

fun insertLead :: "(string \<Rightarrow> string \<Rightarrow> int) \<Rightarrow> string \<times> json \<Rightarrow> (string \<times> json) list
    \<Rightarrow> (string \<times> json) list" where
  "insertLead cmp a [] = [a]"
| "insertLead cmp a (b # bs) =
     (if cmp (fst b) (fst a) \<le> 0 then a # b # bs else b # insertLead cmp a bs)"

definition sortLeads :: "env \<Rightarrow> json list \<Rightarrow> exn + json list" where
  "sortLeads e xs =
     (if length xs < 2 then Inr xs
      else case createdAtKeys e xs of
        Inl err \<Rightarrow> Inl err
      | Inr ks \<Rightarrow> Inr (map snd (foldr (insertLead (localeCompare e)) ks [])))"

definition readMatchLeads :: "env \<Rightarrow> lead_file \<Rightarrow> exn + json list" where
  "readMatchLeads e f =
     (case f of
        Absent \<Rightarrow> Inr []
      | Unreadable \<Rightarrow> Inl IOError
      | NotJson \<Rightarrow> Inl SyntaxError
      | Parsed (JArr xs) \<Rightarrow> sortLeads e xs
      | Parsed _ \<Rightarrow> Inr [])"

text \<open>\<^verbatim>\<open>Array.isArray(v)\<close>\<close>

definition isArray :: "json \<Rightarrow> bool" where
  "isArray v = (case v of JArr xs \<Rightarrow> True | _ \<Rightarrow> False)"

text \<open>
  The order of the result: \<open>a\<close> may stand before \<open>b\<close> when both keys can be
  computed and \<^verbatim>\<open>key(b).localeCompare(key(a))\<close> is not positive.
\<close>

definition keyNotAfter :: "env \<Rightarrow> json \<Rightarrow> json \<Rightarrow> bool" where
  "keyNotAfter e a b =
     (case createdAtKey e a of
        Inl err \<Rightarrow> False
      | Inr ka \<Rightarrow> (case createdAtKey e b of Inl err \<Rightarrow> False | Inr kb \<Rightarrow> localeCompare e kb ka \<le> 0))"

text \<open>
  Comparison of strings by code units, the order of \<^verbatim>\<open><\<close> on JavaScript
  strings: negative, zero or positive.
\<close>

fun codeUnitCompare :: "string \<Rightarrow> string \<Rightarrow> int" where
  "codeUnitCompare [] [] = 0"
| "codeUnitCompare [] (y # ys) = - 1"
| "codeUnitCompare (x # xs) [] = 1"
| "codeUnitCompare (x # xs) (y # ys) =
     (if (of_char x :: nat) < of_char y then - 1
      else if (of_char y :: nat) < of_char x then 1
      else codeUnitCompare xs ys)"

text \<open>
  A collation that, like the one \<^verbatim>\<open>localeCompare\<close> uses, compares letters
  without regard to case before anything else: \<^verbatim>\<open>"a".localeCompare("B")\<close> is
  negative although \<^verbatim>\<open>"B" < "a"\<close> by code units.
\<close>

definition caselessCompare :: "string \<Rightarrow> string \<Rightarrow> int" where
  "caselessCompare a b = codeUnitCompare (toLowerCase a) (toLowerCase b)"

section \<open>Admin authorisation (server.js lines 17 and 96--99)\<close>

text \<open>\<^verbatim>\<open>process.env.ADMIN_TOKEN || ""\<close>\<close>

definition adminToken :: "string option \<Rightarrow> string" where
  "adminToken var = (case var of None \<Rightarrow> [] | Some s \<Rightarrow> s)"

text \<open>
  \<^verbatim>\<open>isAdminAuthorized\<close>, from the configured token and the value of the header
  \<^verbatim>\<open>x-admin-token\<close>, which Node delivers as a string or not at all.
\<close>

definition isAdminAuthorized :: "string \<Rightarrow> string option \<Rightarrow> bool" where
  "isAdminAuthorized ADMIN_TOKEN header =
     (let token = trim (case header of None \<Rightarrow> [] | Some h \<Rightarrow> h)
      in ADMIN_TOKEN \<noteq> [] \<and> token = ADMIN_TOKEN)"

section \<open>The lead form (server.js lines 103--140)\<close>

text \<open>
  \<^verbatim>\<open>/^[^\s@]+@[^\s@]+\.[^\s@]+$/.test(email)\<close>: no white space, exactly one
  \<^verbatim>\<open>@\<close>, something before it, and after it a dot that is neither the first nor
  the last character.
\<close>

definition emailOk :: "string \<Rightarrow> bool" where
  "emailOk email \<longleftrightarrow>
     (let local = takeWhile (\<lambda>c. c \<noteq> CHR ''@'') email;
          rest = dropWhile (\<lambda>c. c \<noteq> CHR ''@'') email;
          domain = tl rest
      in list_all (\<lambda>c. \<not> is_space c) email
         \<and> local \<noteq> [] \<and> rest \<noteq> []
         \<and> CHR ''@'' \<notin> set domain
         \<and> CHR ''.'' \<in> set (butlast (tl domain)))"

text \<open>\<^verbatim>\<open>Number.isInteger(value) && value >= 1 && value <= 5\<close>\<close>

definition answerOk :: "jsnum \<Rightarrow> bool" where
  "answerOk value =
     (case value of Fin q \<Rightarrow> of_int \<lfloor>q\<rfloor> = q \<and> 1 \<le> q \<and> q \<le> 5 | _ \<Rightarrow> False)"

text \<open>
  \<^verbatim>\<open>keys.every((key) => ...)\<close> stops at the first key whose answer is not
  valid.
\<close>

fun everyAnswer :: "env \<Rightarrow> json \<Rightarrow> string list \<Rightarrow> exn + bool" where
  "everyAnswer e answers [] = Inr True"
| "everyAnswer e answers (key # keys) =
     (case js_Number e (get_prop answers key) of
        Inl err \<Rightarrow> Inl err
      | Inr value \<Rightarrow> if answerOk value then everyAnswer e answers keys else Inr False)"

text \<open>Lines 105--114: the values computed from the body before any check.\<close>

record fields =
  email :: string
  consent :: bool
  answers :: json
  score :: jsnum
  percentage :: jsnum
  validAnswers :: bool

definition leadFields :: "env \<Rightarrow> json option \<Rightarrow> exn + fields" where
  "leadFields e body =
     (case js_String e (js_or (opt_prop body ''email'') (JStr [])) of
        Inl err \<Rightarrow> Inl err
      | Inr s \<Rightarrow>
     (case js_Number e (Some (js_or (opt_prop body ''score'') (JNum (Fin 0)))) of
        Inl err \<Rightarrow> Inl err
      | Inr sc \<Rightarrow>
     (case js_Number e (Some (js_or (opt_prop body ''percentage'') (JNum (Fin 0)))) of
        Inl err \<Rightarrow> Inl err
      | Inr pc \<Rightarrow>
     (let ans = js_or (opt_prop body ''answers'') (JObj [])
      in case everyAnswer e ans [''q1'', ''q2'', ''q3'', ''q4''] of
           Inl err \<Rightarrow> Inl err
         | Inr ok \<Rightarrow>
             Inr \<lparr> email = toLowerCase (trim s),
                   consent = js_Boolean (opt_prop body ''consent''),
                   answers = ans, score = sc, percentage = pc, validAnswers = ok \<rparr>))))"

text \<open>
  A response: the status and the JSON body. \<^verbatim>\<open>JSON.stringify\<close> writes a number
  that is not finite as \<^verbatim>\<open>null\<close>.
\<close>

datatype response = Response nat json

definition storedNum :: "jsnum \<Rightarrow> json" where
  "storedNum n = (case n of Fin q \<Rightarrow> JNum (Fin q) | _ \<Rightarrow> JNull)"

definition errorBody :: "string \<Rightarrow> json" where
  "errorBody msg = JObj [(''error'', JStr msg)]"

text \<open>Lines 120--133: the lead handed to \<^verbatim>\<open>saveMatchLead\<close>.\<close>

definition newLead :: "env \<Rightarrow> fields \<Rightarrow> exn + json" where
  "newLead e f =
     (case js_Number e (get_prop (answers f) ''q1'') of Inl err \<Rightarrow> Inl err | Inr a1 \<Rightarrow>
     (case js_Number e (get_prop (answers f) ''q2'') of Inl err \<Rightarrow> Inl err | Inr a2 \<Rightarrow>
     (case js_Number e (get_prop (answers f) ''q3'') of Inl err \<Rightarrow> Inl err | Inr a3 \<Rightarrow>
     (case js_Number e (get_prop (answers f) ''q4'') of Inl err \<Rightarrow> Inl err | Inr a4 \<Rightarrow>
        Inr (JObj [(''email'', JStr (email f)),
                   (''consent'', JBool (consent f)),
                   (''answers'', JObj [(''q1'', storedNum a1), (''q2'', storedNum a2),
                                       (''q3'', storedNum a3), (''q4'', storedNum a4)]),
                   (''score'', storedNum (score f)),
                   (''percentage'', storedNum (percentage f)),
                   (''createdAt'', JStr (now e)),
                   (''source'', JStr ''match-form'')])))))"

text \<open>The body of the \<^verbatim>\<open>try\<close> block: the response and the document after it.\<close>

definition matchLeadTry :: "env \<Rightarrow> lead_file \<Rightarrow> json option \<Rightarrow> exn + response \<times> lead_file" where
  "matchLeadTry e file body =
     (case leadFields e body of
        Inl err \<Rightarrow> Inl err
      | Inr f \<Rightarrow>
          if \<not> emailOk (email f) then Inr (Response 400 (errorBody ''Ogiltig e-postadress.''), file)
          else if \<not> consent f then
            Inr (Response 400 (errorBody (''Samtycke kr'' @ [CHR 0xE4] @ ''vs.'')), file)
          else if \<not> validAnswers f then
            Inr (Response 400 (errorBody (''Ofullst'' @ [CHR 0xE4] @ ''ndiga svar.'')), file)
          else
            (case newLead e f of
               Inl err \<Rightarrow> Inl err
             | Inr lead \<Rightarrow>
                 (case saveMatchLead e file lead of
                    Inl err \<Rightarrow> Inl err
                  | Inr file' \<Rightarrow> Inr (Response 200 (JObj [(''ok'', JBool True)]), file'))))"

text \<open>The handler of \<^verbatim>\<open>POST /api/match-lead\<close>: the \<^verbatim>\<open>catch\<close> answers 500.\<close>

definition matchLead :: "env \<Rightarrow> lead_file \<Rightarrow> json option \<Rightarrow> response \<times> lead_file" where
  "matchLead e file body =
     (case matchLeadTry e file body of
        Inl err \<Rightarrow> (Response 500 (errorBody ''Kunde inte spara lead just nu.''), file)
      | Inr r \<Rightarrow> r)"

definition status :: "response \<Rightarrow> nat" where
  "status r = (case r of Response n b \<Rightarrow> n)"

section \<open>The chat relay (server.js lines 142--192)\<close>

datatype role = User | Assistant | System

record chat_message =
  role :: role
  content :: string

text \<open>
  Lines 143 and 146. \<^verbatim>\<open>.trim\<close> exists on strings only: any other value that
  is neither \<^verbatim>\<open>null\<close> nor \<^verbatim>\<open>undefined\<close> makes the call throw, before the
  \<^verbatim>\<open>try\<close>. \<open>Inr None\<close> is a message that is missing or empty, answered with 400.
\<close>

definition chatMessage :: "json option \<Rightarrow> exn + string option" where
  "chatMessage body =
     (let m = (case body of
                 None \<Rightarrow> None
               | Some b \<Rightarrow>
                   if \<not> truthy b then Some b
                   else if js_Boolean (get_prop b ''message'') then get_prop b ''message''
                   else if js_Boolean (get_prop b ''prompt'') then get_prop b ''prompt''
                   else get_prop b ''text'')
      in case m of
           None \<Rightarrow> Inr None
         | Some JNull \<Rightarrow> Inr None
         | Some (JStr s) \<Rightarrow> Inr (if trim s = [] then None else Some (trim s))
         | Some _ \<Rightarrow> Inl TypeError)"

text \<open>Lines 149--163: the history is taken whole or not at all.\<close>

definition validItem :: "json \<Rightarrow> bool" where
  "validItem item \<longleftrightarrow>
     truthy item
     \<and> (get_prop item ''role'' = Some (JStr ''user'') \<or> get_prop item ''role'' = Some (JStr ''assistant''))
     \<and> (case get_prop item ''content'' of Some (JStr s) \<Rightarrow> True | _ \<Rightarrow> False)"

definition toMessage :: "json \<Rightarrow> chat_message" where
  "toMessage item =
     \<lparr> role = (if get_prop item ''role'' = Some (JStr ''user'') then User else Assistant),
       content = (case get_prop item ''content'' of Some (JStr s) \<Rightarrow> s | _ \<Rightarrow> []) \<rparr>"

definition validateHistory :: "json option \<Rightarrow> chat_message list option" where
  "validateHistory incomingHistory =
     (case incomingHistory of
        Some (JArr items) \<Rightarrow> if list_all validItem items then Some (map toMessage items) else None
      | _ \<Rightarrow> None)"

text \<open>Lines 165--175: the last 12 entries, each cut to 800 characters.\<close>

definition capHistory :: "chat_message list option \<Rightarrow> chat_message list option" where
  "capHistory validatedHistory =
     (case validatedHistory of
        None \<Rightarrow> None
      | Some h \<Rightarrow>
          let h' = (if length h > 12 then js_slice_from h (- 12) else h)
          in Some (map (\<lambda>item. \<lparr> role = role item, content = js_slice (content item) 0 800 \<rparr>) h'))"

text \<open>
  Lines 177--192. The two prompts come from \<^verbatim>\<open>./prompts\<close>, a module that is not
  part of the sources at hand; they are parameters.
\<close>

definition assembleMessages :: "string \<Rightarrow> string \<Rightarrow> chat_message list option \<Rightarrow> string
    \<Rightarrow> chat_message list" where
  "assembleMessages SYSTEM_PROMPT KNOWLEDGE_BLOCK validatedHistory message =
     (let messages = [\<lparr> role = System, content = SYSTEM_PROMPT \<rparr>,
                      \<lparr> role = System, content = KNOWLEDGE_BLOCK \<rparr>]
      in case validatedHistory of
           None \<Rightarrow> messages @ [\<lparr> role = User, content = message \<rparr>]
         | Some h \<Rightarrow>
             if length h > 0 then
               let hasLatestUser = list_ex (\<lambda>item. role item = User \<and> trim (content item) = message) h
               in if \<not> hasLatestUser then messages @ h @ [\<lparr> role = User, content = message \<rparr>]
                  else messages @ h
             else messages @ [\<lparr> role = User, content = message \<rparr>])"

text \<open>
  The messages sent upstream for a request body, when the request gets that
  far.
\<close>

definition chatMessages :: "string \<Rightarrow> string \<Rightarrow> json option \<Rightarrow> exn + chat_message list option" where
  "chatMessages SYSTEM_PROMPT KNOWLEDGE_BLOCK body =
     (case chatMessage body of
        Inl err \<Rightarrow> Inl err
      | Inr None \<Rightarrow> Inr None
      | Inr (Some message) \<Rightarrow>
          Inr (Some (assembleMessages SYSTEM_PROMPT KNOWLEDGE_BLOCK
                 (capHistory (validateHistory (opt_prop body ''history''))) message)))"

text \<open>
  An environment for the examples: the collation is \<^const>\<open>caselessCompare\<close>, no
  file operation fails, and the number conversions, which no example reaches,
  are constant.
\<close>

definition exampleEnv :: env where
  "exampleEnv =
     \<lparr> numToString = (\<lambda>n. ''0''), stringToNum = (\<lambda>s. NaN), localeCompare = caselessCompare,
       now = ''2024-01-02T00:00:00.000Z'', mkdirFails = False, writeFails = False \<rparr>"

section \<open>Properties of the text finaliser\<close>


lemma stop_not_space: "is_stop c \<Longrightarrow> \<not> is_space c"
  by (auto simp: is_stop_def is_space_def)

lemma trimEnd_id: "s = [] \<or> \<not> is_space (last s) \<Longrightarrow> trimEnd s = s"
  by (cases s rule: rev_cases) (auto simp: trimEnd_def)

lemma trimStart_id: "s = [] \<or> \<not> is_space (hd s) \<Longrightarrow> trimStart s = s"
  by (cases s) (auto simp: trimStart_def)

lemma trimStart_last:
  assumes "s \<noteq> []" "\<not> is_space (last s)"
  shows "trimStart s \<noteq> [] \<and> last (trimStart s) = last s"
proof -
  have "last s \<in> set s" using assms by simp
  then have ne: "dropWhile is_space s \<noteq> []" using assms(2) by auto
  have "s = takeWhile is_space s @ dropWhile is_space s" by simp
  then have "last s = last (takeWhile is_space s @ dropWhile is_space s)" by simp
  also have "\<dots> = last (dropWhile is_space s)" using ne by (rule last_appendR)
  finally show ?thesis using ne by (simp add: trimStart_def)
qed

lemma trim_last:
  assumes "s \<noteq> []" "\<not> is_space (last s)"
  shows "trim s \<noteq> [] \<and> last (trim s) = last s"
  using trimStart_last[OF assms] assms(2) by (simp add: trim_def trimEnd_id)

lemma length_trimStart: "length (trimStart s) \<le> length s"
  by (simp add: trimStart_def length_dropWhile_le)

lemma length_trimEnd: "length (trimEnd s) \<le> length s"
  using length_dropWhile_le[of is_space "rev s"] by (simp add: trimEnd_def)

lemma length_trim: "length (trim s) \<le> length s"
  using length_trimEnd[of "trimStart s"] length_trimStart[of s] by (simp add: trim_def)

lemma takeWhile_neq_less: "c \<in> set xs \<Longrightarrow> length (takeWhile (\<lambda>x. x \<noteq> c) xs) < length xs"
  by (induction xs) auto

lemma lastIndexOf_upper: "lastIndexOf s c < int (length s)"
  by (simp add: lastIndexOf_def)

lemma lastIndexOf_lower: "- 1 \<le> lastIndexOf s c"
proof (cases "c \<in> set s")
  case True
  then have "length (takeWhile (\<lambda>x. x \<noteq> c) (rev s)) < length s"
    using takeWhile_neq_less[of c "rev s"] by simp
  then show ?thesis using True by (simp add: lastIndexOf_def)
next
  case False
  then show ?thesis by (simp add: lastIndexOf_def)
qed

lemma lastIndexOf_nth:
  assumes "0 \<le> lastIndexOf s c"
  shows "s ! nat (lastIndexOf s c) = c"
proof -
  let ?k = "length (takeWhile (\<lambda>x. x \<noteq> c) (rev s))"
  from assms have mem: "c \<in> set s" by (auto simp: lastIndexOf_def split: if_splits)
  then have lt: "?k < length (rev s)"
    using takeWhile_neq_less[of c "rev s"] by simp
  then have "rev s ! ?k = c" using nth_length_takeWhile[of "\<lambda>x. x \<noteq> c" "rev s"] by simp
  moreover have "rev s ! ?k = s ! (length s - Suc ?k)" using lt by (simp add: rev_nth)
  moreover have "nat (lastIndexOf s c) = length s - Suc ?k"
    using mem lt by (simp add: lastIndexOf_def nat_diff_distrib)
  ultimately show ?thesis by simp
qed

lemma lastStop_upper: "lastStop s < int (length s)"
  by (simp add: lastStop_def lastIndexOf_upper)

lemma lastStop_lower: "- 1 \<le> lastStop s"
  using lastIndexOf_lower[of s "CHR ''.''"] by (simp add: lastStop_def)

lemma lastStop_nth: "0 \<le> lastStop s \<Longrightarrow> is_stop (s ! nat (lastStop s))"
  unfolding lastStop_def is_stop_def max_def
  using lastIndexOf_nth[of s "CHR ''.''"] lastIndexOf_nth[of s "CHR ''!''"] lastIndexOf_nth[of s "CHR ''?''"]
  by (auto split: if_splits)

lemma js_slice_prefix: "0 \<le> k \<Longrightarrow> js_slice xs 0 k = take (nat k) xs"
  by (auto simp: js_slice_def Let_def min_def)

lemma cut_endsWithStop:
  assumes "0 \<le> lastStop s"
  shows "endsWithStop (js_slice s 0 (lastStop s + 1))"
proof -
  let ?k = "nat (lastStop s)"
  have lt: "?k < length s" using lastStop_upper[of s] assms by simp
  have eq: "js_slice s 0 (lastStop s + 1) = take (Suc ?k) s"
    using assms by (simp add: js_slice_prefix nat_add_distrib)
  have "take (Suc ?k) s = take ?k s @ [s ! ?k]" using lt by (simp add: take_Suc_conv_app_nth)
  then show ?thesis using eq lastStop_nth[OF assms] by (simp add: endsWithStop_def)
qed

lemma trim_endsWithStop: "endsWithStop s \<Longrightarrow> endsWithStop (trim s)"
  using trim_last[of s] stop_not_space[of "last s"] by (auto simp: endsWithStop_def)

lemma terminateCandidate_endsWithStop: "endsWithStop (terminateCandidate c)"
proof (cases "endsWithStop c")
  case True
  then show ?thesis by (simp add: terminateCandidate_def)
next
  case False
  show ?thesis
  proof (cases "lastStop c > 0")
    case True
    then have "endsWithStop (js_slice c 0 (lastStop c + 1))" by (intro cut_endsWithStop) simp
    then show ?thesis using False True by (simp add: terminateCandidate_def trim_endsWithStop)
  next
    case F2: False
    have "endsWithStop (c @ ''.'')" by (simp add: endsWithStop_def is_stop_def)
    then show ?thesis using False F2 by (simp add: terminateCandidate_def trim_endsWithStop)
  qed
qed

text \<open>
  Claim C2. Whatever value is passed as \<open>text\<close> (\<^verbatim>\<open>undefined\<close>, a value that
  is not a string, the empty string, white space only, text with no terminator),
  the string returned by \<^verbatim>\<open>finalizeReply\<close> is empty or its last character is
  one of \<open>.\<close>, \<open>!\<close>, \<open>?\<close>.
\<close>

theorem finalizeReply_terminated:
  "finalizeReply text maxChars maxSentences = []
   \<or> last (finalizeReply text maxChars maxSentences) \<in> {CHR ''.'', CHR ''!'', CHR ''?''}"
proof -
  have "endsWithStop (terminateCandidate c) \<Longrightarrow> last (terminateCandidate c) \<in> {CHR ''.'', CHR ''!'', CHR ''?''}" for c
    by (auto simp: endsWithStop_def is_stop_def)
  then show ?thesis
    using terminateCandidate_endsWithStop
    by (auto simp: finalizeReply_def Let_def split: option.splits json.splits)
qed


lemma length_js_slice: "length (js_slice xs a b) \<le> length xs"
  unfolding js_slice_def Let_def length_take length_drop by linarith

lemma truncateCandidate_bound: "length (truncateCandidate c maxChars) \<le> maxChars"
proof (cases "int (length c) > int maxChars")
  case True
  let ?short = "js_slice c 0 (int maxChars)"
  have short: "length ?short \<le> maxChars" by (simp add: js_slice_prefix)
  have "length (trim (if lastStop ?short > 40 then js_slice ?short 0 (lastStop ?short + 1) else ?short))
          \<le> length ?short"
    using length_trim[of ?short] length_trim[of "js_slice ?short 0 (lastStop ?short + 1)"]
      length_js_slice[of ?short 0 "lastStop ?short + 1"]
    by (simp split: if_splits)
  then show ?thesis using True short by (simp add: truncateCandidate_def Let_def)
next
  case False
  then show ?thesis by (simp add: truncateCandidate_def)
qed

lemma trim_append_dot:
  "trim (c @ ''.'') = trimStart c @ ''.''"
proof -
  have "trimStart (c @ ''.'') = trimStart c @ ''.''"
    by (simp add: trimStart_def dropWhile_append is_space_def)
  moreover have "trimEnd (trimStart c @ ''.'') = trimStart c @ ''.''"
    by (rule trimEnd_id) (simp add: is_space_def)
  ultimately show ?thesis by (simp add: trim_def)
qed

lemma trimStart_cases: "trimStart c = c \<or> length (trimStart c) < length c"
  by (cases c) (auto simp: trimStart_def le_imp_less_Suc length_dropWhile_le)

lemma terminateCandidate_length:
  "length (terminateCandidate c) \<le> length c
   \<or> (terminateCandidate c = c @ ''.'' \<and> lastStop c \<le> 0)"
proof (cases "endsWithStop c")
  case True
  then show ?thesis by (simp add: terminateCandidate_def)
next
  case False
  show ?thesis
  proof (cases "lastStop c > 0")
    case True
    have "length (trim (js_slice c 0 (lastStop c + 1))) \<le> length c"
      using length_trim[of "js_slice c 0 (lastStop c + 1)"] length_js_slice[of c 0 "lastStop c + 1"]
      by simp
    then show ?thesis using False True by (simp add: terminateCandidate_def)
  next
    case F2: False
    have eq: "terminateCandidate c = trimStart c @ ''.''"
      using False F2 by (simp add: terminateCandidate_def trim_append_dot)
    show ?thesis using trimStart_cases[of c] eq F2 by auto
  qed
qed

text \<open>
  Claim C7. On \<^verbatim>\<open>"Hi there. Hi there! Bye."\<close> the three matched segments have the
  keys \<open>hi there\<close>, \<open>hi there\<close> and \<open>bye\<close>; the second segment is dropped as a
  duplicate of the first, exactly the two sentences \<^verbatim>\<open>"Hi there."\<close> and
  \<^verbatim>\<open>"Bye."\<close> survive, and the reply is \<^verbatim>\<open>"Hi there. Bye."\<close>.
\<close>

theorem dedupe_example:
  "sentenceParts ''Hi there. Hi there! Bye.'' = [''Hi there.'', '' Hi there!'', '' Bye.'']
   \<and> sentence_key ''Hi there.'' = ''hi there''
   \<and> sentence_key '' Hi there!'' = ''hi there''
   \<and> sentence_key ''Hi there!'' = sentence_key ''Hi there.''
   \<and> uniqueSentences ''Hi there. Hi there! Bye.'' = [''Hi there.'', ''Bye.'']
   \<and> finalizeReply (Some (JStr ''Hi there. Hi there! Bye.'')) 520 4 = ''Hi there. Bye.''"
  by code_simp

lemma dedupe_skip_empty_key:
  "sentence_key p = [] \<Longrightarrow> dedupe seen (ps @ p # qs) = dedupe seen (ps @ qs)"
  by (induction ps arbitrary: seen) (simp_all add: Let_def)

lemma dedupe_keys_nonempty:
  "u \<in> set (dedupe seen ps) \<Longrightarrow> \<exists>p\<in>set ps. u = trim p \<and> sentence_key p \<noteq> []"
  by (induction ps arbitrary: seen) (auto simp: Let_def split: if_splits)

text \<open>
  Claim C10. A segment whose key is empty is skipped by the loop wherever it
  stands, also when it is the first with that key: \<^verbatim>\<open>uniqueSentences\<close>, and
  with it the joined candidate, is the same as if the segment had not been
  matched at all.
\<close>

theorem empty_key_dropped:
  assumes "sentence_key p = []"
  shows "dedupe {} (ps @ p # qs) = dedupe {} (ps @ qs)
         \<and> joinedCandidate (dedupe {} (ps @ p # qs)) maxSentences
             = joinedCandidate (dedupe {} (ps @ qs)) maxSentences"
  using dedupe_skip_empty_key[OF assms] by simp

text \<open>
  The segment \<^verbatim>\<open>" -."\<close> has an empty key and leaves no trace between
  \<^verbatim>\<open>"Hello."\<close> and \<^verbatim>\<open>" Bye."\<close>.
\<close>

theorem empty_key_dropped_witness:
  "sentence_key '' -.'' = []
   \<and> dedupe {} ([''Hello.''] @ '' -.'' # ['' Bye.'']) = dedupe {} ([''Hello.''] @ ['' Bye.''])
   \<and> joinedCandidate (dedupe {} ([''Hello.''] @ '' -.'' # ['' Bye.''])) 4
       = joinedCandidate (dedupe {} ([''Hello.''] @ ['' Bye.''])) 4"
proof -
  have k: "sentence_key '' -.'' = []" by code_simp
  show ?thesis using k empty_key_dropped[OF k, of "[''Hello.'']" "['' Bye.'']" 4] by simp
qed


lemma trimEnd_prefix: "\<exists>ws. s = trimEnd s @ ws \<and> (\<forall>c\<in>set ws. is_space c)"
proof -
  have "rev s = takeWhile is_space (rev s) @ dropWhile is_space (rev s)" by simp
  then have "s = rev (dropWhile is_space (rev s)) @ rev (takeWhile is_space (rev s))"
    by (metis rev_append rev_rev_ident)
  moreover have "\<forall>c\<in>set (rev (takeWhile is_space (rev s))). is_space c"
    by (auto dest: set_takeWhileD)
  ultimately show ?thesis unfolding trimEnd_def by blast
qed

lemma trimEnd_last: "trimEnd s \<noteq> [] \<Longrightarrow> \<not> is_space (last (trimEnd s))"
  using hd_dropWhile[of is_space "rev s"] by (simp add: trimEnd_def last_rev)

lemma trim_hd: "trim s \<noteq> [] \<Longrightarrow> \<not> is_space (hd (trim s))"
proof -
  assume ne: "trim s \<noteq> []"
  obtain ws where ws: "trimStart s = trim s @ ws"
    using trimEnd_prefix[of "trimStart s"] by (auto simp: trim_def)
  then have "hd (trimStart s) = hd (trim s)" using ne by simp
  moreover have "trimStart s \<noteq> []" using ws ne by auto
  ultimately show ?thesis using hd_dropWhile[of is_space s] by (simp add: trimStart_def)
qed

lemma trim_id: "s \<noteq> [] \<Longrightarrow> \<not> is_space (hd s) \<Longrightarrow> \<not> is_space (last s) \<Longrightarrow> trim s = s"
  by (simp add: trim_def trimStart_id trimEnd_id)

lemma trim_trim: "trim (trim s) = trim s"
proof (cases "trim s = []")
  case True
  have "trim [] = []" by (simp add: trim_def trimStart_def trimEnd_def)
  then show ?thesis using True by simp
next
  case False
  have "\<not> is_space (last (trim s))" using False trimEnd_last[of "trimStart s"] by (simp add: trim_def)
  then show ?thesis using False trim_hd[of s] by (simp add: trim_id)
qed

lemma lastIndexOf_max:
  assumes "j < length s" "s ! j = c"
  shows "int j \<le> lastIndexOf s c"
proof -
  let ?k = "length (takeWhile (\<lambda>x. x \<noteq> c) (rev s))"
  have mem: "c \<in> set s" using assms by auto
  have "?k \<le> length s - Suc j"
  proof (rule ccontr)
    assume "\<not> ?k \<le> length s - Suc j"
    then have lt: "length s - Suc j < ?k" by simp
    have "takeWhile (\<lambda>x. x \<noteq> c) (rev s) ! (length s - Suc j)
            \<in> set (takeWhile (\<lambda>x. x \<noteq> c) (rev s))"
      using lt by (rule nth_mem)
    then have "takeWhile (\<lambda>x. x \<noteq> c) (rev s) ! (length s - Suc j) \<noteq> c"
      by (rule set_takeWhileD[THEN conjunct2])
    moreover have "takeWhile (\<lambda>x. x \<noteq> c) (rev s) ! (length s - Suc j) = rev s ! (length s - Suc j)"
      using lt by (rule takeWhile_nth)
    moreover have "rev s ! (length s - Suc j) = s ! j" using assms(1) by (simp add: rev_nth)
    ultimately show False using assms(2) by simp
  qed
  then show ?thesis using mem assms(1) by (simp add: lastIndexOf_def)
qed

lemma lastStop_max:
  assumes "j < length s" "is_stop (s ! j)"
  shows "int j \<le> lastStop s"
  using assms lastIndexOf_max[of j s "s ! j"]
  by (auto simp: lastStop_def is_stop_def)


lemma sentenceParts_Nil: "sentenceParts [] = []"
  by (simp add: sentenceParts.simps[of "[]"])

lemma lastStop_eq:
  assumes "k < length s" "is_stop (s ! k)"
    and "\<And>j. k < j \<Longrightarrow> j < length s \<Longrightarrow> \<not> is_stop (s ! j)"
  shows "lastStop s = int k"
proof -
  have lo: "int k \<le> lastStop s" using assms(1,2) by (rule lastStop_max)
  then have nn: "0 \<le> lastStop s" by simp
  have "is_stop (s ! nat (lastStop s))" using nn by (rule lastStop_nth)
  moreover have "nat (lastStop s) < length s" using lastStop_upper[of s] nn by simp
  ultimately have "\<not> k < nat (lastStop s)" using assms(3) by blast
  then show ?thesis using lo by simp
qed

lemma pickCandidate_trimmed:
  assumes "pickCandidate (normalizeText t) maxSentences \<noteq> []"
  shows "\<not> is_space (hd (pickCandidate (normalizeText t) maxSentences))"
  using assms trim_hd
  by (auto simp: pickCandidate_def joinedCandidate_def normalizeText_def Let_def split: if_splits)

text \<open>
  Claim C8. Let the candidate (the joined sentences, or the normalised text) be
  longer than 520 characters, with a terminator at index 45 and no other
  terminator among its first 520 characters. Then \<^verbatim>\<open>finalizeReply\<close> with
  \<open>maxChars = 520\<close> returns the candidate cut after that terminator: its first
  46 characters, the last of them the terminator at index 45 (45 is above the
  threshold 40).
\<close>

theorem truncate_at_45:
  fixes t :: string
  defines "cand \<equiv> pickCandidate (normalizeText t) 4"
  assumes long: "520 < length cand"
    and before: "filter is_stop (take 45 cand) = []"
    and at: "is_stop (cand ! 45)"
    and after: "filter is_stop (take 474 (drop 46 cand)) = []"
  shows "finalizeReply (Some (JStr t)) 520 4 = take 46 cand"
proof -
  let ?short = "js_slice cand 0 520"
  have short: "?short = take 520 cand" by (simp add: js_slice_prefix)
  have len: "length ?short = 520" using long by (simp add: short)
  have "lastStop ?short = int 45"
  proof (rule lastStop_eq)
    show "45 < length ?short" using len by simp
    show "is_stop (?short ! 45)" using at by (simp add: short)
    fix j assume j: "45 < j" "j < length ?short"
    then have "j - 46 < length (take 474 (drop 46 cand))" using long len by simp
    then have "take 474 (drop 46 cand) ! (j - 46) \<in> set (take 474 (drop 46 cand))"
      by (rule nth_mem)
    moreover have "take 474 (drop 46 cand) ! (j - 46) = cand ! j" using j long len by simp
    ultimately have "\<not> is_stop (cand ! j)" using after by (auto simp: filter_empty_conv)
    then show "\<not> is_stop (?short ! j)" using j len by (simp add: short)
  qed
  then have stop: "lastStop ?short = 45" by simp
  have cut: "js_slice ?short 0 (45 + 1) = take 46 cand"
    by (simp add: short js_slice_prefix)
  have ne: "take 46 cand \<noteq> []" using long by auto
  have cne: "cand \<noteq> []" using long by auto
  have hd: "\<not> is_space (hd (take 46 cand))"
    using pickCandidate_trimmed[of t 4] cne by (simp add: cand_def[symmetric])
  have "take 46 cand = take 45 cand @ [cand ! 45]"
    using long take_Suc_conv_app_nth[of 45 cand] by simp
  then have last: "last (take 46 cand) = cand ! 45" by simp
  then have ends: "endsWithStop (take 46 cand)" using at ne by (simp add: endsWithStop_def)
  have "\<not> is_space (last (take 46 cand))" using last at stop_not_space by simp
  then have "trim (take 46 cand) = take 46 cand" using ne hd by (intro trim_id)
  then have trunc: "truncateCandidate cand 520 = take 46 cand"
    using long stop cut by (simp add: truncateCandidate_def Let_def)
  have norm: "normalizeText t \<noteq> []"
  proof
    assume "normalizeText t = []"
    then have "cand = []"
      by (simp add: cand_def pickCandidate_def uniqueSentences_def sentenceParts_Nil)
    then show False using cne by simp
  qed
  then have "t \<noteq> []" by (auto simp: normalizeText_def trim_def trimStart_def trimEnd_def)
  then have "finalizeReply (Some (JStr t)) 520 4 = terminateCandidate (truncateCandidate cand 520)"
    using norm by (simp add: finalizeReply_def Let_def cand_def)
  then show ?thesis using trunc ends by (simp add: terminateCandidate_def)
qed


text \<open>
  A text of 600 characters, 45 letters, a full stop, 553 letters, a full stop:
  the candidate has 601 characters and the reply is the first sentence.
\<close>

theorem truncate_at_45_witness:
  "520 < length (pickCandidate (normalizeText (replicate 45 CHR ''a'' @ ''.'' @ replicate 553 CHR ''b'' @ ''.'')) 4)
   \<and> filter is_stop (take 45 (pickCandidate (normalizeText (replicate 45 CHR ''a'' @ ''.'' @ replicate 553 CHR ''b'' @ ''.'')) 4)) = []
   \<and> is_stop (pickCandidate (normalizeText (replicate 45 CHR ''a'' @ ''.'' @ replicate 553 CHR ''b'' @ ''.'')) 4 ! 45)
   \<and> filter is_stop (take 474 (drop 46 (pickCandidate (normalizeText (replicate 45 CHR ''a'' @ ''.'' @ replicate 553 CHR ''b'' @ ''.'')) 4))) = []
   \<and> finalizeReply (Some (JStr (replicate 45 CHR ''a'' @ ''.'' @ replicate 553 CHR ''b'' @ ''.''))) 520 4
       = replicate 45 CHR ''a'' @ ''.''"
proof -
  let ?t = "replicate 45 CHR ''a'' @ ''.'' @ replicate 553 CHR ''b'' @ ''.''"
  let ?e = "replicate 45 CHR ''a'' @ ''. '' @ replicate 553 CHR ''b'' @ ''.''"
  have c: "pickCandidate (normalizeText ?t) 4 = ?e" by code_simp
  have 1: "520 < length ?e" by simp
  have 2: "filter is_stop (take 45 ?e) = []" by (simp add: is_stop_def)
  have 3: "is_stop (?e ! 45)" by (simp add: nth_append is_stop_def)
  have 4: "filter is_stop (take 474 (drop 46 ?e)) = []" by (auto simp: is_stop_def filter_empty_conv)
  have 5: "take 46 ?e = replicate 45 CHR ''a'' @ ''.''" by simp
  show ?thesis
    using truncate_at_45[of ?t] 1 2 3 4 unfolding c 5 by blast
qed

lemma length_collapse_ws: "length (collapse_ws t) \<le> length t"
proof (induction t rule: collapse_ws.induct)
  case 1
  then show ?case by simp
next
  case (2 c cs)
  show ?case
  proof (cases "is_space c")
    case True
    have "length (collapse_ws (dropWhile is_space cs)) \<le> length (dropWhile is_space cs)"
      using 2(1)[OF True] .
    also have "\<dots> \<le> length cs" by (rule length_dropWhile_le)
    finally show ?thesis using True by simp
  next
    case False
    then show ?thesis using 2(2) by simp
  qed
qed

lemma collapse_ws_id: "\<forall>c\<in>set t. \<not> is_space c \<Longrightarrow> collapse_ws t = t"
  by (induction t) auto

lemma dropWhile_append_keep:
  "ys \<noteq> [] \<Longrightarrow> \<not> P (hd ys) \<Longrightarrow> dropWhile P (xs @ ys) = dropWhile P xs @ ys"
  by (induction xs) (auto simp: dropWhile_eq_self_iff)

lemma collapse_ws_append:
  "ys \<noteq> [] \<Longrightarrow> \<not> is_space (hd ys) \<Longrightarrow> collapse_ws (xs @ ys) = collapse_ws xs @ collapse_ws ys"
proof (induction xs rule: collapse_ws.induct)
  case 1
  then show ?case by simp
next
  case (2 c cs)
  show ?case
  proof (cases "is_space c")
    case True
    have "dropWhile is_space (cs @ ys) = dropWhile is_space cs @ ys"
      using 2(3,4) by (rule dropWhile_append_keep)
    then show ?thesis using True 2(1)[OF True 2(3,4)] by simp
  next
    case False
    then show ?thesis using 2(2)[OF False 2(3,4)] by simp
  qed
qed

lemma set_collapse_ws: "set (collapse_ws t) \<subseteq> insert CHR '' '' (set t)"
proof (induction t rule: collapse_ws.induct)
  case 1
  then show ?case by simp
next
  case (2 c cs)
  show ?case
  proof (cases "is_space c")
    case True
    have "set (dropWhile is_space cs) \<subseteq> set cs" by (auto dest: set_dropWhileD)
    then show ?thesis using True 2(1)[OF True] by auto
  next
    case False
    then show ?thesis using 2(2)[OF False] by auto
  qed
qed

lemma collapse_ws_hd:
  "t \<noteq> [] \<Longrightarrow> \<not> is_space (hd t) \<Longrightarrow> collapse_ws t \<noteq> [] \<and> hd (collapse_ws t) = hd t"
  by (cases t) auto

lemma ws_normal_collapse_ws: "ws_normal (collapse_ws t)"
proof (induction t rule: collapse_ws.induct)
  case 1
  then show ?case by simp
next
  case (2 c cs)
  show ?case
  proof (cases "is_space c")
    case True
    let ?r = "dropWhile is_space cs"
    have ih: "ws_normal (collapse_ws ?r)" using 2(1)[OF True] .
    have step: "collapse_ws (c # cs) = CHR '' '' # collapse_ws ?r" using True by simp
    show ?thesis
    proof (cases "?r = []")
      case True
      have e: "collapse_ws ?r = []" by (simp only: True collapse_ws.simps(1))
      show ?thesis unfolding step e by simp
    next
      case False
      then have "\<not> is_space (hd ?r)" by (rule hd_dropWhile)
      then obtain d r where dr: "collapse_ws ?r = d # r" "\<not> is_space d"
        using collapse_ws_hd[OF False] by (cases "collapse_ws ?r") auto
      show ?thesis unfolding step using ih dr by simp
    qed
  next
    case False
    then show ?thesis using 2(2)[OF False] by (cases "collapse_ws cs") auto
  qed
qed

lemma ws_normal_fixed: "ws_normal x \<Longrightarrow> collapse_ws x = x"
  by (induction x rule: ws_normal.induct) auto

lemma ws_normal_append: "ws_normal (xs @ ys) \<Longrightarrow> ws_normal xs \<and> ws_normal ys"
proof (induction xs rule: ws_normal.induct)
  case 1
  then show ?case by simp
next
  case (2 c)
  then show ?case by (cases ys) auto
next
  case (3 c d r)
  then show ?case by auto
qed

lemma ws_normal_trim: "ws_normal x \<Longrightarrow> ws_normal (trim x)"
proof -
  assume n: "ws_normal x"
  have "x = takeWhile is_space x @ trimStart x" by (simp add: trimStart_def)
  then have 1: "ws_normal (trimStart x)" using n ws_normal_append by metis
  obtain ws where "trimStart x = trim x @ ws"
    using trimEnd_prefix[of "trimStart x"] by (auto simp: trim_def)
  then show ?thesis using 1 ws_normal_append by metis
qed

lemma normalizeText_idem: "normalizeText (normalizeText t) = normalizeText t"
proof -
  have "ws_normal (normalizeText t)"
    unfolding normalizeText_def by (intro ws_normal_trim ws_normal_collapse_ws)
  then have "collapse_ws (normalizeText t) = normalizeText t" by (rule ws_normal_fixed)
  then have "normalizeText (normalizeText t) = trim (normalizeText t)"
    by (simp add: normalizeText_def)
  then show ?thesis by (simp add: normalizeText_def trim_trim)
qed

lemma finalizeReply_normalized:
  "finalizeReply (Some (JStr (normalizeText t))) maxChars maxSentences
     = finalizeReply (Some (JStr t)) maxChars maxSentences"
proof -
  have "normalizeText [] = []" by (simp add: normalizeText_def trim_def trimStart_def trimEnd_def)
  then show ?thesis by (auto simp: finalizeReply_def Let_def normalizeText_idem)
qed


lemma sentenceParts_single:
  assumes B: "\<forall>c\<in>set B. \<not> is_stop c" and ne: "stops \<noteq> []" and st: "\<forall>c\<in>set stops. is_stop c"
  shows "sentenceParts (B @ stops) = (if B = [] then [] else [B @ stops])"
proof -
  have hd: "is_stop (hd stops)" using ne st by (cases stops) auto
  have t0: "takeWhile (\<lambda>c. \<not> is_stop c) stops = []" using hd ne by (cases stops) auto
  have d0: "dropWhile (\<lambda>c. \<not> is_stop c) stops = stops" using hd ne by (cases stops) auto
  have t1: "takeWhile (\<lambda>c. \<not> is_stop c) (B @ stops) = B" using B t0 by simp
  have d1: "dropWhile (\<lambda>c. \<not> is_stop c) (B @ stops) = stops" using B d0 by simp
  have t2: "takeWhile is_stop stops = stops" using st by simp
  have d2: "dropWhile is_stop stops = []" using st by simp
  show ?thesis
    by (subst sentenceParts.simps) (simp add: Let_def t1 d1 t2 d2 ne sentenceParts_Nil)
qed

lemma single_sentence_normalized:
  assumes "single_sentence s"
  shows "\<exists>B stops. normalizeText s = B @ stops \<and> (\<forall>c\<in>set B. \<not> is_stop c)
           \<and> stops \<noteq> [] \<and> (\<forall>c\<in>set stops. is_stop c)"
proof -
  let ?body = "takeWhile (\<lambda>c. \<not> is_stop c) s"
  let ?stops = "dropWhile (\<lambda>c. \<not> is_stop c) s"
  from assms have both: "?stops \<noteq> [] \<and> list_all is_stop ?stops"
    unfolding single_sentence_def Let_def by blast
  then have ne: "?stops \<noteq> []" by (rule conjunct1)
  from both have st: "\<forall>c\<in>set ?stops. is_stop c"
    unfolding list_all_iff by (rule conjunct2)
  have s: "s = ?body @ ?stops" by simp
  have hd: "\<not> is_space (hd ?stops)" using ne st stop_not_space by (cases ?stops) auto
  have nsp: "\<forall>c\<in>set ?stops. \<not> is_space c" using st stop_not_space by blast
  have "collapse_ws (?body @ ?stops) = collapse_ws ?body @ collapse_ws ?stops"
    using ne hd by (rule collapse_ws_append)
  then have c: "collapse_ws s = collapse_ws ?body @ ?stops"
    using collapse_ws_id[OF nsp] by simp
  let ?B = "dropWhile is_space (collapse_ws ?body)"
  have ts: "trimStart (collapse_ws s) = ?B @ ?stops"
    unfolding c trimStart_def using ne hd by (rule dropWhile_append_keep)
  have "\<not> is_space (last (?B @ ?stops))" using ne nsp by simp
  then have "trimEnd (?B @ ?stops) = ?B @ ?stops" by (intro trimEnd_id) simp
  then have n: "normalizeText s = ?B @ ?stops" by (simp add: normalizeText_def trim_def ts)
  have "set ?B \<subseteq> set (collapse_ws ?body)" by (auto dest: set_dropWhileD)
  also have "\<dots> \<subseteq> insert CHR '' '' (set ?body)" by (rule set_collapse_ws)
  finally have "\<forall>c\<in>set ?B. \<not> is_stop c"
    by (auto simp: is_stop_def dest: set_takeWhileD)
  then show ?thesis using n ne st by blast
qed

lemma length_normalizeText: "length (normalizeText s) \<le> length s"
  using length_trim[of "collapse_ws s"] length_collapse_ws[of s] by (simp add: normalizeText_def)

lemma finalizeReply_dot: "1 \<le> maxChars \<Longrightarrow> finalizeReply (Some (JStr ''.'')) maxChars maxSentences = ''.''"
proof -
  assume mc: "1 \<le> maxChars"
  have n: "normalizeText ''.'' = ''.''" by code_simp
  have u: "uniqueSentences ''.'' = []" by code_simp
  have e: "endsWithStop ''.''" by code_simp
  show ?thesis using mc e
    by (simp add: finalizeReply_def n pickCandidate_def u truncateCandidate_def terminateCandidate_def)
qed

lemma finalizeReply_single:
  assumes ss: "single_sentence s" and len: "length s \<le> maxChars"
  shows "finalizeReply (Some (JStr s)) maxChars maxSentences = normalizeText s
         \<or> finalizeReply (Some (JStr s)) maxChars maxSentences = ''.''"
proof -
  let ?N = "normalizeText s"
  obtain B stops where N: "?N = B @ stops" and B: "\<forall>c\<in>set B. \<not> is_stop c"
    and ne: "stops \<noteq> []" and st: "\<forall>c\<in>set stops. is_stop c"
    using single_sentence_normalized[OF ss] by blast
  have Nne: "?N \<noteq> []" using N ne by simp
  have sne: "s \<noteq> []" using ss unfolding single_sentence_def Let_def by auto
  have ends: "endsWithStop ?N" using N ne st by (simp add: endsWithStop_def)
  have lenN: "length ?N \<le> maxChars" using length_normalizeText[of s] len by simp
  have trimN: "trim ?N = ?N" by (simp add: normalizeText_def trim_trim)
  have parts: "sentenceParts ?N = (if B = [] then [] else [?N])"
    unfolding N using B ne st by (rule sentenceParts_single)
  have uniq: "uniqueSentences ?N = [] \<or> uniqueSentences ?N = [?N]"
    using parts trimN by (auto simp: uniqueSentences_def Let_def)
  have fin: "finalizeReply (Some (JStr s)) maxChars maxSentences
       = terminateCandidate (truncateCandidate (pickCandidate ?N maxSentences) maxChars)"
    using sne Nne by (simp add: finalizeReply_def Let_def)
  have keepN: "terminateCandidate (truncateCandidate ?N maxChars) = ?N"
    using lenN ends by (simp add: truncateCandidate_def terminateCandidate_def)
  have "terminateCandidate [] = ''.''" by code_simp
  then have dot: "terminateCandidate (truncateCandidate [] maxChars) = ''.''"
    by (simp add: truncateCandidate_def)
  from uniq show ?thesis
  proof
    assume "uniqueSentences ?N = []"
    then show ?thesis using fin keepN by (simp add: pickCandidate_def)
  next
    assume u: "uniqueSentences ?N = [?N]"
    show ?thesis
    proof (cases "maxSentences = 0")
      case True
      then have "pickCandidate ?N maxSentences = []"
        using u by (simp add: pickCandidate_def joinedCandidate_def js_slice_def trim_def trimStart_def trimEnd_def)
      then show ?thesis using fin dot by simp
    next
      case False
      then have "js_slice [?N] 0 (int maxSentences) = [?N]"
        by (simp add: js_slice_def Let_def min_def)
      then have "pickCandidate ?N maxSentences = ?N"
        using u trimN by (simp add: pickCandidate_def joinedCandidate_def)
      then show ?thesis using fin keepN by simp
    qed
  qed
qed

text \<open>
  Claim C6. If \<open>s\<close> is a single sentence ended by terminators and has at most
  \<open>maxChars\<close> characters, finalising the finalised text changes nothing.
\<close>

theorem finalizeReply_idempotent:
  assumes "single_sentence s" and "length s \<le> maxChars"
  shows "finalizeReply (Some (JStr (finalizeReply (Some (JStr s)) maxChars maxSentences))) maxChars maxSentences
           = finalizeReply (Some (JStr s)) maxChars maxSentences"
proof -
  have "s \<noteq> []" using assms(1) unfolding single_sentence_def Let_def by auto
  then have mc: "1 \<le> maxChars" using assms(2) by (cases s) auto
  from finalizeReply_single[OF assms, of maxSentences] show ?thesis
  proof
    assume "finalizeReply (Some (JStr s)) maxChars maxSentences = normalizeText s"
    then show ?thesis by (simp add: finalizeReply_normalized)
  next
    assume "finalizeReply (Some (JStr s)) maxChars maxSentences = ''.''"
    then show ?thesis using finalizeReply_dot[OF mc] by simp
  qed
qed

text \<open>
  \<^verbatim>\<open>"Hello   world!"\<close> is such a sentence; its reply is \<^verbatim>\<open>"Hello world!"\<close>.
\<close>

theorem finalizeReply_idempotent_witness:
  "single_sentence ''Hello   world!'' \<and> length ''Hello   world!'' \<le> 520
   \<and> finalizeReply (Some (JStr ''Hello   world!'')) 520 4 = ''Hello world!''
   \<and> finalizeReply (Some (JStr (finalizeReply (Some (JStr ''Hello   world!'')) 520 4))) 520 4
       = finalizeReply (Some (JStr ''Hello   world!'')) 520 4"
proof -
  have 1: "single_sentence ''Hello   world!''" by code_simp
  have 2: "length ''Hello   world!'' \<le> 520" by simp
  have 3: "finalizeReply (Some (JStr ''Hello   world!'')) 520 4 = ''Hello world!''" by code_simp
  show ?thesis using 1 2 3 finalizeReply_idempotent[OF 1 2, of 4] by simp
qed

section \<open>The length of the reply\<close>

lemma lastStop_tail:
  assumes "lastStop c \<le> 0"
  shows "filter is_stop (tl c) = []"
proof (rule ccontr)
  assume "filter is_stop (tl c) \<noteq> []"
  then obtain x where x: "x \<in> set (tl c)" "is_stop x" by (auto simp: filter_empty_conv)
  then obtain i where i: "i < length (tl c)" "tl c ! i = x" by (auto simp: in_set_conv_nth)
  then have "Suc i < length c" by simp
  moreover have "c ! Suc i = x" using i by (simp add: nth_tl)
  ultimately have "int (Suc i) \<le> lastStop c" using x(2) lastStop_max[of "Suc i" c] by simp
  then show False using assms by simp
qed

text \<open>
  Claim C3, as the code has it. For every input and every \<open>maxChars\<close> (a count of
  characters) the result has at most \<open>maxChars + 1\<close> characters. It has more
  than \<open>maxChars\<close> only when it is a candidate of exactly \<open>maxChars\<close> characters
  with a \<open>.\<close> appended, and the \<open>.\<close> is appended when \<^verbatim>\<open>lastStop > 0\<close> fails:
  the candidate has no terminator after its first character. A terminator that
  is the first character does not count as found.
\<close>

theorem finalizeReply_length:
  "length (finalizeReply text maxChars maxSentences) \<le> maxChars + 1
   \<and> (maxChars < length (finalizeReply text maxChars maxSentences) \<longrightarrow>
        (\<exists>c. finalizeReply text maxChars maxSentences = c @ ''.''
           \<and> length c = maxChars \<and> lastStop c \<le> 0 \<and> filter is_stop (tl c) = []))"
proof -
  have step: "length (terminateCandidate (truncateCandidate c maxChars)) \<le> maxChars + 1
     \<and> (maxChars < length (terminateCandidate (truncateCandidate c maxChars)) \<longrightarrow>
        (\<exists>d. terminateCandidate (truncateCandidate c maxChars) = d @ ''.''
           \<and> length d = maxChars \<and> lastStop d \<le> 0 \<and> filter is_stop (tl d) = []))" for c
    using terminateCandidate_length[of "truncateCandidate c maxChars"]
      truncateCandidate_bound[of c maxChars]
      lastStop_tail[of "truncateCandidate c maxChars"]
    by auto
  show ?thesis
  proof (cases "text")
    case None
    then show ?thesis by (simp add: finalizeReply_def)
  next
    case (Some v)
    show ?thesis
    proof (cases v)
      case (JStr t)
      show ?thesis
      proof (cases "t = [] \<or> normalizeText t = []")
        case True
        then show ?thesis using Some JStr by (auto simp: finalizeReply_def Let_def)
      next
        case False
        then have "finalizeReply text maxChars maxSentences =
          terminateCandidate (truncateCandidate (pickCandidate (normalizeText t) maxSentences) maxChars)"
          using Some JStr by (simp add: finalizeReply_def Let_def)
        then show ?thesis using step by simp
      qed
    qed (simp_all add: Some finalizeReply_def)
  qed
qed

text \<open>
  The claim as stated allows \<open>maxChars + 1\<close> characters only when no terminator
  was found within bounds. With \<open>maxChars = 4\<close> the text \<^verbatim>\<open>"?abcdef"\<close> is its own
  candidate; the slice \<^verbatim>\<open>"?abc"\<close> has the terminator \<^verbatim>\<open>?\<close> at index 0, where
  \<^verbatim>\<open>lastStop > 0\<close> fails, and the reply is \<^verbatim>\<open>"?abc."\<close>: five characters, with a
  terminator within bounds.
\<close>

theorem finalizeReply_length_counterexample:
  "pickCandidate (normalizeText ''?abcdef'') 4 = ''?abcdef''
   \<and> filter is_stop (js_slice ''?abcdef'' 0 4) = ''?''
   \<and> lastStop (js_slice ''?abcdef'' 0 4) = 0
   \<and> finalizeReply (Some (JStr ''?abcdef'')) 4 4 = ''?abc.''
   \<and> 4 < length (finalizeReply (Some (JStr ''?abcdef'')) 4 4)"
  by code_simp

text \<open>
  The bound \<open>maxChars + 1\<close> is reached with no terminator at all:
  \<^verbatim>\<open>finalizeReply("abcd", 4)\<close> is \<^verbatim>\<open>"abcd."\<close>.
\<close>

theorem finalizeReply_length_witness:
  "finalizeReply (Some (JStr ''abcd'')) 4 4 = ''abcd.''
   \<and> 4 < length (finalizeReply (Some (JStr ''abcd'')) 4 4)
   \<and> (\<exists>c. finalizeReply (Some (JStr ''abcd'')) 4 4 = c @ ''.'' \<and> length c = 4
          \<and> lastStop c \<le> 0 \<and> filter is_stop (tl c) = [])"
proof -
  have r: "finalizeReply (Some (JStr ''abcd'')) 4 4 = ''abcd.''" by code_simp
  then have "4 < length (finalizeReply (Some (JStr ''abcd'')) 4 4)" by simp
  then show ?thesis using r finalizeReply_length[of "Some (JStr ''abcd'')" 4 4] by blast
qed

section \<open>Properties of the admin check and of the chat relay\<close>


text \<open>
  Claim C4, as the code has it. The token compared with the secret is the header
  value with the white space at both ends removed: a request is authorised
  exactly when the secret is not empty, the header is present and its trimmed
  value is the secret. With an empty secret no request is authorised, whatever
  the header.
\<close>

theorem isAdminAuthorized_trimmed:
  "(isAdminAuthorized secret header \<longleftrightarrow>
      secret \<noteq> [] \<and> (\<exists>h. header = Some h \<and> trim h = secret))
   \<and> \<not> isAdminAuthorized [] header
   \<and> \<not> isAdminAuthorized (adminToken None) header"
proof -
  have "trim [] = []" by (simp add: trim_def trimStart_def trimEnd_def)
  then show ?thesis
    by (cases header) (auto simp: isAdminAuthorized_def adminToken_def Let_def)
qed

text \<open>
  The claim as stated asks for a header equal to the secret. A header that
  carries the secret followed by a NO-BREAK SPACE differs from it, and is
  authorised.
\<close>

theorem isAdminAuthorized_counterexample:
  "\<not> (isAdminAuthorized ''s3cret'' (Some (''s3cret'' @ [CHR 0xA0]))
        \<longleftrightarrow> ''s3cret'' \<noteq> [] \<and> Some (''s3cret'' @ [CHR 0xA0]) = Some ''s3cret'')"
  by code_simp

text \<open>
  The secret itself is authorised, another value and a missing header are not,
  and with an empty secret an empty header is not.
\<close>

theorem isAdminAuthorized_trimmed_witness:
  "isAdminAuthorized ''s3cret'' (Some ''s3cret'')
   \<and> \<not> isAdminAuthorized ''s3cret'' (Some ''guess'')
   \<and> \<not> isAdminAuthorized ''s3cret'' None
   \<and> \<not> isAdminAuthorized [] (Some [])"
proof -
  have 1: "trim ''s3cret'' = ''s3cret''" by code_simp
  have 2: "trim ''guess'' \<noteq> ''s3cret''" by code_simp
  show ?thesis
    using isAdminAuthorized_trimmed[of "''s3cret''" "Some ''s3cret''"]
      isAdminAuthorized_trimmed[of "''s3cret''" "Some ''guess''"]
      isAdminAuthorized_trimmed[of "''s3cret''" None]
      isAdminAuthorized_trimmed[of "[]" "Some []"] 1 2
    by simp
qed

text \<open>
  Claim C1, as the code has it. With an accepted history that is not empty, the
  messages are the two system prompts, the history, and then the new user
  message unless some entry of the history, not only the last one, is a user
  turn whose trimmed content is the message.
\<close>

theorem assemble_with_history:
  assumes "chatMessage body = Inr (Some message)"
    and "capHistory (validateHistory (opt_prop body ''history'')) = Some h"
    and "h \<noteq> []"
  shows "chatMessages sp kb body =
           Inr (Some ([\<lparr> role = System, content = sp \<rparr>, \<lparr> role = System, content = kb \<rparr>] @ h
                 @ (if list_ex (\<lambda>item. role item = User \<and> trim (content item) = message) h
                    then [] else [\<lparr> role = User, content = message \<rparr>])))"
  using assms by (simp add: chatMessages_def assembleMessages_def Let_def)

text \<open>
  The claim as stated appends the message whenever the last entry is not the
  identical user turn. In this request the first entry is, the last entry is an
  assistant turn, and the message is not appended.
\<close>

theorem assemble_counterexample:
  "chatMessages ''S'' ''K''
     (Some (JObj [(''message'', JStr ''hi''),
                  (''history'', JArr [JObj [(''role'', JStr ''user''), (''content'', JStr ''hi'')],
                                      JObj [(''role'', JStr ''assistant''), (''content'', JStr ''hello'')]])]))
   = Inr (Some [\<lparr> role = System, content = ''S'' \<rparr>, \<lparr> role = System, content = ''K'' \<rparr>,
                \<lparr> role = User, content = ''hi'' \<rparr>, \<lparr> role = Assistant, content = ''hello'' \<rparr>])
   \<and> \<not> (role \<lparr> role = Assistant, content = ''hello'' \<rparr> = User
          \<and> trim (content \<lparr> role = Assistant, content = ''hello'' \<rparr>) = ''hi'')"
  by code_simp

text \<open>
  A request whose message is in no entry of the history: it is appended, trimmed.
\<close>

theorem assemble_with_history_witness:
  "chatMessages ''S'' ''K''
     (Some (JObj [(''message'', JStr '' again ''),
                  (''history'', JArr [JObj [(''role'', JStr ''user''), (''content'', JStr ''hi'')],
                                      JObj [(''role'', JStr ''assistant''), (''content'', JStr ''hello'')]])]))
   = Inr (Some [\<lparr> role = System, content = ''S'' \<rparr>, \<lparr> role = System, content = ''K'' \<rparr>,
                \<lparr> role = User, content = ''hi'' \<rparr>, \<lparr> role = Assistant, content = ''hello'' \<rparr>,
                \<lparr> role = User, content = ''again'' \<rparr>])"
proof -
  let ?body = "Some (JObj [(''message'', JStr '' again ''),
                  (''history'', JArr [JObj [(''role'', JStr ''user''), (''content'', JStr ''hi'')],
                                      JObj [(''role'', JStr ''assistant''), (''content'', JStr ''hello'')]])])"
  let ?h = "[\<lparr> role = User, content = ''hi'' \<rparr>, \<lparr> role = Assistant, content = ''hello'' \<rparr>]"
  have 1: "chatMessage ?body = Inr (Some ''again'')" by code_simp
  have 2: "capHistory (validateHistory (opt_prop ?body ''history'')) = Some ?h" by code_simp
  have 3: "?h \<noteq> []" by simp
  have 4: "trim ''hi'' \<noteq> ''again''" by code_simp
  show ?thesis using assemble_with_history[OF 1 2 3, of "''S''" "''K''"] 4 by simp
qed

section \<open>Properties of the lead form\<close>


lemma everyAnswer_True:
  "everyAnswer e ans keys = Inr True \<longleftrightarrow>
     list_all (\<lambda>k. case js_Number e (get_prop ans k) of Inr v \<Rightarrow> answerOk v | Inl err \<Rightarrow> False) keys"
  by (induction keys) (auto split: sum.splits)

lemma leadFields_parts:
  assumes "leadFields e body = Inr f"
  shows "consent f = js_Boolean (opt_prop body ''consent'')"
    and "answers f = js_or (opt_prop body ''answers'') (JObj [])"
    and "everyAnswer e (answers f) [''q1'', ''q2'', ''q3'', ''q4''] = Inr (validAnswers f)"
    and "\<exists>s. js_String e (js_or (opt_prop body ''email'') (JStr [])) = Inr s
           \<and> email f = toLowerCase (trim s)"
  using assms by (auto simp: leadFields_def Let_def simp del: everyAnswer.simps split: sum.splits)

text \<open>
  Claim C9, as the code has it. The three checks are made on values computed
  from the body: the email is \<^verbatim>\<open>String(email || "")\<close>, trimmed and in lower
  case, consent is \<^verbatim>\<open>Boolean(consent)\<close>, and the answers are valid when
  \<^verbatim>\<open>Number(answers[k])\<close> is an integer from 1 to 5 for each of the four keys.
  When computing these values throws, the answer is 500. Otherwise the request
  is answered 400, and nothing is written, as soon as one check fails. The
  document changes only when all three checks pass.
\<close>

theorem matchLead_validation:
  "(leadFields e body = Inr f \<longrightarrow>
      consent f = js_Boolean (opt_prop body ''consent'')
      \<and> (validAnswers f \<longleftrightarrow>
           list_all (\<lambda>k. case js_Number e (get_prop (js_or (opt_prop body ''answers'') (JObj [])) k) of
                            Inr v \<Rightarrow> answerOk v | Inl err \<Rightarrow> False)
             [''q1'', ''q2'', ''q3'', ''q4''])
      \<and> (\<not> emailOk (email f) \<or> \<not> consent f \<or> \<not> validAnswers f \<longrightarrow>
           status (fst (matchLead e file body)) = 400 \<and> snd (matchLead e file body) = file))
   \<and> (leadFields e body = Inl err \<longrightarrow>
        status (fst (matchLead e file body)) = 500 \<and> snd (matchLead e file body) = file)
   \<and> (snd (matchLead e file body) \<noteq> file \<longrightarrow>
        (\<exists>g. leadFields e body = Inr g \<and> emailOk (email g) \<and> consent g \<and> validAnswers g))"
proof (intro conjI impI)
  assume f: "leadFields e body = Inr f"
  show "consent f = js_Boolean (opt_prop body ''consent'')" using leadFields_parts(1)[OF f] .
  show "validAnswers f \<longleftrightarrow>
           list_all (\<lambda>k. case js_Number e (get_prop (js_or (opt_prop body ''answers'') (JObj [])) k) of
                            Inr v \<Rightarrow> answerOk v | Inl err \<Rightarrow> False)
             [''q1'', ''q2'', ''q3'', ''q4'']"
    using leadFields_parts(2,3)[OF f] everyAnswer_True[of e "answers f" "[''q1'', ''q2'', ''q3'', ''q4'']"]
    by (cases "validAnswers f") simp_all
next
  assume f: "leadFields e body = Inr f"
    and bad: "\<not> emailOk (email f) \<or> \<not> consent f \<or> \<not> validAnswers f"
  then show "status (fst (matchLead e file body)) = 400"
    by (auto simp: matchLead_def matchLeadTry_def status_def)
  from f bad show "snd (matchLead e file body) = file"
    by (auto simp: matchLead_def matchLeadTry_def)
next
  assume "leadFields e body = Inl err"
  then show "status (fst (matchLead e file body)) = 500" "snd (matchLead e file body) = file"
    by (simp_all add: matchLead_def matchLeadTry_def status_def errorBody_def)
next
  assume ch: "snd (matchLead e file body) \<noteq> file"
  show "\<exists>g. leadFields e body = Inr g \<and> emailOk (email g) \<and> consent g \<and> validAnswers g"
  proof (cases "leadFields e body")
    case (Inl x)
    then show ?thesis using ch by (simp add: matchLead_def matchLeadTry_def)
  next
    case (Inr g)
    then show ?thesis using ch
      by (auto simp: matchLead_def matchLeadTry_def split: if_splits sum.splits)
  qed
qed


text \<open>
  The claim as stated promises 400 for a bad email, for a refused consent and
  for an answer out of range, whatever the other fields are. The first body
  has all three, and a \<^verbatim>\<open>score\<close> that is an object with an own property
  \<^verbatim>\<open>toString\<close>: \<^verbatim>\<open>Number(score)\<close> throws before any check is made, and the
  answer is 500. The second body has an email that does not match the pattern
  as it is sent, with a space at both ends, and an answer that is the boolean
  \<^verbatim>\<open>true\<close>: the checks see \<^verbatim>\<open>anna@example.com\<close> and the number 1, and the
  lead is saved.
\<close>

theorem matchLead_counterexample:
  "\<not> emailOk ''not-an-email''
   \<and> status (fst (matchLead exampleEnv Absent
        (Some (JObj [(''email'', JStr ''not-an-email''), (''consent'', JBool False),
                     (''answers'', JObj [(''q1'', JNum (Fin 5)), (''q2'', JNum (Fin 0)),
                                         (''q3'', JNum (Fin 3)), (''q4'', JNum (Fin 3))]),
                     (''score'', JObj [(''toString'', JNum (Fin 1))])])))) = 500
   \<and> \<not> emailOk '' Anna@Example.com ''
   \<and> matchLead exampleEnv Absent
        (Some (JObj [(''email'', JStr '' Anna@Example.com ''), (''consent'', JBool True),
                     (''answers'', JObj [(''q1'', JBool True), (''q2'', JNum (Fin 3)),
                                         (''q3'', JNum (Fin 3)), (''q4'', JNum (Fin 3))])]))
       = (Response 200 (JObj [(''ok'', JBool True)]),
          Parsed (JArr [JObj [(''email'', JStr ''anna@example.com''),
                              (''consent'', JBool True),
                              (''answers'', JObj [(''q1'', JNum (Fin 1)), (''q2'', JNum (Fin 3)),
                                                  (''q3'', JNum (Fin 3)), (''q4'', JNum (Fin 3))]),
                              (''score'', JNum (Fin 0)),
                              (''percentage'', JNum (Fin 0)),
                              (''createdAt'', JStr ''2024-01-02T00:00:00.000Z''),
                              (''source'', JStr ''match-form'')]]))"
  by code_simp

text \<open>
  The three rejections of the specification: the email \<^verbatim>\<open>not-an-email\<close>, consent
  \<^verbatim>\<open>false\<close>, and the answers \<^verbatim>\<open>{q1:5, q2:0, q3:3, q4:3}\<close>, each in a body that
  is valid otherwise.
\<close>

theorem matchLead_validation_witness:
  "status (fst (matchLead exampleEnv Absent
        (Some (JObj [(''email'', JStr ''not-an-email''), (''consent'', JBool True),
                     (''answers'', JObj [(''q1'', JNum (Fin 5)), (''q2'', JNum (Fin 3)),
                                         (''q3'', JNum (Fin 3)), (''q4'', JNum (Fin 3))])])))) = 400
   \<and> status (fst (matchLead exampleEnv Absent
        (Some (JObj [(''email'', JStr ''anna@example.com''), (''consent'', JBool False),
                     (''answers'', JObj [(''q1'', JNum (Fin 5)), (''q2'', JNum (Fin 3)),
                                         (''q3'', JNum (Fin 3)), (''q4'', JNum (Fin 3))])])))) = 400
   \<and> status (fst (matchLead exampleEnv Absent
        (Some (JObj [(''email'', JStr ''anna@example.com''), (''consent'', JBool True),
                     (''answers'', JObj [(''q1'', JNum (Fin 5)), (''q2'', JNum (Fin 0)),
                                         (''q3'', JNum (Fin 3)), (''q4'', JNum (Fin 3))])])))) = 400"
proof -
  let ?ok = "JObj [(''q1'', JNum (Fin 5)), (''q2'', JNum (Fin 3)),
                   (''q3'', JNum (Fin 3)), (''q4'', JNum (Fin 3))]"
  let ?bad = "JObj [(''q1'', JNum (Fin 5)), (''q2'', JNum (Fin 0)),
                    (''q3'', JNum (Fin 3)), (''q4'', JNum (Fin 3))]"
  let ?b1 = "Some (JObj [(''email'', JStr ''not-an-email''), (''consent'', JBool True), (''answers'', ?ok)])"
  let ?b2 = "Some (JObj [(''email'', JStr ''anna@example.com''), (''consent'', JBool False), (''answers'', ?ok)])"
  let ?b3 = "Some (JObj [(''email'', JStr ''anna@example.com''), (''consent'', JBool True), (''answers'', ?bad)])"
  let ?f1 = "\<lparr> email = ''not-an-email'', consent = True, answers = ?ok,
               score = Fin 0, percentage = Fin 0, validAnswers = True \<rparr>"
  let ?f2 = "\<lparr> email = ''anna@example.com'', consent = False, answers = ?ok,
               score = Fin 0, percentage = Fin 0, validAnswers = True \<rparr>"
  let ?f3 = "\<lparr> email = ''anna@example.com'', consent = True, answers = ?bad,
               score = Fin 0, percentage = Fin 0, validAnswers = False \<rparr>"
  have 1: "leadFields exampleEnv ?b1 = Inr ?f1" by code_simp
  have 2: "leadFields exampleEnv ?b2 = Inr ?f2" by code_simp
  have 3: "leadFields exampleEnv ?b3 = Inr ?f3" by code_simp
  have e: "\<not> emailOk ''not-an-email''" by code_simp
  show ?thesis
    using matchLead_validation[of exampleEnv ?b1 ?f1 Absent] matchLead_validation[of exampleEnv ?b2 ?f2 Absent]
      matchLead_validation[of exampleEnv ?b3 ?f3 Absent] 1 2 3 e
    by simp
qed

section \<open>Properties of the lead store\<close>


lemma mset_insertLead: "mset (insertLead cmp a bs) = add_mset a (mset bs)"
  by (induction bs) auto

lemma set_insertLead: "set (insertLead cmp a bs) = insert a (set bs)"
  by (induction bs) auto

lemma sorted_insertLead:
  assumes total: "\<forall>a b. cmp a b \<le> 0 \<or> cmp b a \<le> 0"
    and trans: "\<forall>a b c. cmp a b \<le> 0 \<and> cmp b c \<le> 0 \<longrightarrow> cmp a c \<le> 0"
    and sorted: "sorted_wrt (\<lambda>p q. cmp (fst q) (fst p) \<le> 0) bs"
  shows "sorted_wrt (\<lambda>p q. cmp (fst q) (fst p) \<le> 0) (insertLead cmp a bs)"
  using sorted
proof (induction bs)
  case Nil
  then show ?case by simp
next
  case (Cons b bs)
  show ?case
  proof (cases "cmp (fst b) (fst a) \<le> 0")
    case True
    have "cmp (fst x) (fst a) \<le> 0" if "x \<in> set bs" for x
    proof -
      have "cmp (fst x) (fst b) \<le> 0" using Cons.prems that by simp
      then show ?thesis using True trans by blast
    qed
    then show ?thesis using True Cons.prems by auto
  next
    case False
    then have "cmp (fst a) (fst b) \<le> 0" using total by blast
    then show ?thesis using False Cons by (auto simp: set_insertLead)
  qed
qed

lemma sorted_foldr_insertLead:
  assumes "\<forall>a b. cmp a b \<le> 0 \<or> cmp b a \<le> 0"
    and "\<forall>a b c. cmp a b \<le> 0 \<and> cmp b c \<le> 0 \<longrightarrow> cmp a c \<le> 0"
  shows "sorted_wrt (\<lambda>p q. cmp (fst q) (fst p) \<le> 0) (foldr (insertLead cmp) ks [])"
  by (induction ks) (simp_all add: sorted_insertLead[OF assms])

lemma mset_foldr_insertLead: "mset (foldr (insertLead cmp) ks []) = mset ks"
  by (induction ks) (simp_all add: mset_insertLead)

lemma createdAtKeys_Inr:
  "createdAtKeys e xs = Inr ks \<Longrightarrow>
     map snd ks = xs \<and> (\<forall>p\<in>set ks. createdAtKey e (snd p) = Inr (fst p))"
  by (induction xs arbitrary: ks) (auto split: sum.splits)

lemma sortLeads_sorted:
  assumes total: "\<forall>a b. localeCompare e a b \<le> 0 \<or> localeCompare e b a \<le> 0"
    and trans: "\<forall>a b c. localeCompare e a b \<le> 0 \<and> localeCompare e b c \<le> 0 \<longrightarrow> localeCompare e a c \<le> 0"
    and keys: "createdAtKeys e xs = Inr ks"
  shows "\<exists>ys. sortLeads e xs = Inr ys \<and> mset ys = mset xs \<and> sorted_wrt (keyNotAfter e) ys"
proof (cases "length xs < 2")
  case True
  then have "xs = [] \<or> (\<exists>x. xs = [x])" by (cases xs) (auto simp: length_Suc_conv)
  then have "sorted_wrt (keyNotAfter e) xs" by auto
  then show ?thesis using True by (simp add: sortLeads_def)
next
  case False
  let ?s = "foldr (insertLead (localeCompare e)) ks []"
  have res: "sortLeads e xs = Inr (map snd ?s)" using False keys by (simp add: sortLeads_def)
  have ks: "map snd ks = xs" and key: "\<forall>p\<in>set ks. createdAtKey e (snd p) = Inr (fst p)"
    using createdAtKeys_Inr[OF keys] by simp_all
  have "mset (map snd ?s) = image_mset snd (mset ks)"
    by (simp add: mset_foldr_insertLead)
  also have "\<dots> = mset xs" using ks by (metis mset_map)
  finally have m: "mset (map snd ?s) = mset xs" .
  have set: "set ?s = set ks" using mset_foldr_insertLead[of "localeCompare e" ks] by (metis set_mset_mset)
  have "sorted_wrt (\<lambda>p q. localeCompare e (fst q) (fst p) \<le> 0) ?s"
    using total trans by (rule sorted_foldr_insertLead)
  then have "sorted_wrt (\<lambda>p q. keyNotAfter e (snd p) (snd q)) ?s"
  proof (rule sorted_wrt_mono_rel[rotated])
    fix p q assume "p \<in> set ?s" "q \<in> set ?s" "localeCompare e (fst q) (fst p) \<le> 0"
    then show "keyNotAfter e (snd p) (snd q)" using key set by (simp add: keyNotAfter_def)
  qed
  then have "sorted_wrt (keyNotAfter e) (map snd ?s)" by (simp add: sorted_wrt_map)
  then show ?thesis using res m by blast
qed

text \<open>
  Claim C5, as the code has it. \<^verbatim>\<open>readMatchLeads\<close> returns the empty sequence,
  and does not fail, when the document is absent and when it parses to a value
  that is not an array. When it parses to an array and the key
  \<^verbatim>\<open>String(createdAt || "")\<close> of every element can be computed, it returns the
  same leads in descending order of their keys; the order of the keys is the
  one of \<^verbatim>\<open>localeCompare\<close>, a consistent comparator of the host, and not the
  order of the code units. The key of an element without \<^verbatim>\<open>createdAt\<close>, or
  with an empty one, is the empty string.
\<close>

theorem readMatchLeads_sorted:
  assumes "\<forall>a b. localeCompare e a b \<le> 0 \<or> localeCompare e b a \<le> 0"
    and "\<forall>a b c. localeCompare e a b \<le> 0 \<and> localeCompare e b c \<le> 0 \<longrightarrow> localeCompare e a c \<le> 0"
  shows "readMatchLeads e Absent = Inr []
    \<and> (\<not> isArray v \<longrightarrow> readMatchLeads e (Parsed v) = Inr [])
    \<and> (createdAtKeys e xs = Inr ks \<longrightarrow>
         (\<exists>ys. readMatchLeads e (Parsed (JArr xs)) = Inr ys \<and> mset ys = mset xs
                \<and> sorted_wrt (keyNotAfter e) ys))
    \<and> (a \<noteq> JNull \<and> (get_prop a ''createdAt'' = None \<or> get_prop a ''createdAt'' = Some (JStr []))
         \<longrightarrow> createdAtKey e a = Inr [])"
proof (intro conjI impI)
  show "readMatchLeads e Absent = Inr []" by (simp add: readMatchLeads_def)
  show "readMatchLeads e (Parsed v) = Inr []" if "\<not> isArray v"
    using that by (cases v) (simp_all add: readMatchLeads_def isArray_def)
  show "\<exists>ys. readMatchLeads e (Parsed (JArr xs)) = Inr ys \<and> mset ys = mset xs
                \<and> sorted_wrt (keyNotAfter e) ys" if "createdAtKeys e xs = Inr ks"
    using sortLeads_sorted[OF assms that] by (simp add: readMatchLeads_def)
  show "createdAtKey e a = Inr []"
    if "a \<noteq> JNull \<and> (get_prop a ''createdAt'' = None \<or> get_prop a ''createdAt'' = Some (JStr []))"
    using that by (auto simp: createdAtKey_def js_or_def)
qed

lemma codeUnitCompare_total: "codeUnitCompare a b \<le> 0 \<or> codeUnitCompare b a \<le> 0"
  by (induction a b rule: codeUnitCompare.induct) auto

lemma codeUnitCompare_Cons:
  "codeUnitCompare (x # xs) (y # ys) \<le> 0 \<longleftrightarrow>
     (of_char x :: nat) < of_char y \<or> ((of_char x :: nat) = of_char y \<and> codeUnitCompare xs ys \<le> 0)"
  by auto

lemma codeUnitCompare_trans:
  "codeUnitCompare a b \<le> 0 \<Longrightarrow> codeUnitCompare b c \<le> 0 \<Longrightarrow> codeUnitCompare a c \<le> 0"
proof (induction a arbitrary: b c)
  case Nil
  then show ?case by (cases c) simp_all
next
  case (Cons x xs)
  from Cons.prems(1) obtain y ys where b: "b = y # ys" by (cases b) auto
  from Cons.prems(2) b obtain z zs where c: "c = z # zs" by (cases c) auto
  have xy: "(of_char x :: nat) < of_char y \<or> ((of_char x :: nat) = of_char y \<and> codeUnitCompare xs ys \<le> 0)"
    using Cons.prems(1) unfolding b codeUnitCompare_Cons .
  have yz: "(of_char y :: nat) < of_char z \<or> ((of_char y :: nat) = of_char z \<and> codeUnitCompare ys zs \<le> 0)"
    using Cons.prems(2) unfolding b c codeUnitCompare_Cons .
  consider (less) "(of_char x :: nat) < of_char z"
    | (eq) "(of_char x :: nat) = of_char z" "codeUnitCompare xs ys \<le> 0" "codeUnitCompare ys zs \<le> 0"
    using xy yz by force
  then show ?case
  proof cases
    case less
    then show ?thesis unfolding c codeUnitCompare_Cons by (rule disjI1)
  next
    case eq
    have "codeUnitCompare xs zs \<le> 0" using eq(2,3) by (rule Cons.IH)
    then show ?thesis unfolding c codeUnitCompare_Cons using eq(1) by (intro disjI2 conjI)
  qed
qed

text \<open>
  The order of the specification's example, whichever lead was appended first,
  and a lead with no \<^verbatim>\<open>createdAt\<close> last.
\<close>

theorem readMatchLeads_sorted_witness:
  "(\<exists>ys. readMatchLeads exampleEnv
            (Parsed (JArr [JObj [(''email'', JStr ''x@y.se'')],
                           JObj [(''createdAt'', JStr ''2024-01-01T10:00:00.000Z'')],
                           JObj [(''createdAt'', JStr ''2024-01-02T10:00:00.000Z'')]])) = Inr ys
          \<and> mset ys = mset [JObj [(''email'', JStr ''x@y.se'')],
                             JObj [(''createdAt'', JStr ''2024-01-01T10:00:00.000Z'')],
                             JObj [(''createdAt'', JStr ''2024-01-02T10:00:00.000Z'')]]
          \<and> sorted_wrt (keyNotAfter exampleEnv) ys)
   \<and> readMatchLeads exampleEnv
        (Parsed (JArr [JObj [(''email'', JStr ''x@y.se'')],
                       JObj [(''createdAt'', JStr ''2024-01-01T10:00:00.000Z'')],
                       JObj [(''createdAt'', JStr ''2024-01-02T10:00:00.000Z'')]]))
      = Inr [JObj [(''createdAt'', JStr ''2024-01-02T10:00:00.000Z'')],
             JObj [(''createdAt'', JStr ''2024-01-01T10:00:00.000Z'')],
             JObj [(''email'', JStr ''x@y.se'')]]
   \<and> readMatchLeads exampleEnv (Parsed (JObj [(''leads'', JArr [])])) = Inr []"
proof -
  let ?xs = "[JObj [(''email'', JStr ''x@y.se'')],
              JObj [(''createdAt'', JStr ''2024-01-01T10:00:00.000Z'')],
              JObj [(''createdAt'', JStr ''2024-01-02T10:00:00.000Z'')]]"
  let ?ks = "[([], JObj [(''email'', JStr ''x@y.se'')]),
              (''2024-01-01T10:00:00.000Z'', JObj [(''createdAt'', JStr ''2024-01-01T10:00:00.000Z'')]),
              (''2024-01-02T10:00:00.000Z'', JObj [(''createdAt'', JStr ''2024-01-02T10:00:00.000Z'')])]"
  have total: "\<forall>a b. localeCompare exampleEnv a b \<le> 0 \<or> localeCompare exampleEnv b a \<le> 0"
    by (simp add: exampleEnv_def caselessCompare_def codeUnitCompare_total)
  have trans: "\<forall>a b c. localeCompare exampleEnv a b \<le> 0 \<and> localeCompare exampleEnv b c \<le> 0
                 \<longrightarrow> localeCompare exampleEnv a c \<le> 0"
    using codeUnitCompare_trans by (auto simp: exampleEnv_def caselessCompare_def)
  have keys: "createdAtKeys exampleEnv ?xs = Inr ?ks" by code_simp
  have na: "\<not> isArray (JObj [(''leads'', JArr [])])" by code_simp
  have res: "readMatchLeads exampleEnv (Parsed (JArr ?xs))
      = Inr [JObj [(''createdAt'', JStr ''2024-01-02T10:00:00.000Z'')],
             JObj [(''createdAt'', JStr ''2024-01-01T10:00:00.000Z'')],
             JObj [(''email'', JStr ''x@y.se'')]]" by code_simp
  show ?thesis
    using readMatchLeads_sorted[OF total trans, of "JObj [(''leads'', JArr [])]" ?xs ?ks] keys na res
    by blast
qed

text \<open>
  The claim as stated has every array returned in descending order of the code
  units. An array of two \<^verbatim>\<open>null\<close> elements is not returned at all: the
  comparator throws. And where the collation puts \<^verbatim>\<open>"a"\<close> before \<^verbatim>\<open>"B"\<close>, as
  the one of \<^verbatim>\<open>localeCompare\<close> does, the lead of \<^verbatim>\<open>"B"\<close> comes first although
  \<^verbatim>\<open>"B" < "a"\<close> by code units.
\<close>

theorem readMatchLeads_counterexample:
  "readMatchLeads exampleEnv (Parsed (JArr [JNull, JNull])) = Inl TypeError
   \<and> readMatchLeads exampleEnv
        (Parsed (JArr [JObj [(''createdAt'', JStr ''a'')], JObj [(''createdAt'', JStr ''B'')]]))
      = Inr [JObj [(''createdAt'', JStr ''B'')], JObj [(''createdAt'', JStr ''a'')]]
   \<and> codeUnitCompare ''B'' ''a'' < 0"
  by code_simp

end
